theory Spec2Isabelle
  imports Main "HOL-Library.List_Lexorder" "HOL-Library.Product_Lexorder"
begin

chapter \<open>The StarDict lookup engine of sdcv (stardict_lib.cpp)\<close>

text \<open>
  A shallow embedding of the parts of \<^verbatim>\<open>src/stardict_lib.cpp\<close> that the
  specification's properties are about, followed by the properties themselves.

  Conventions of the embedding.
  \<^item> A \<^verbatim>\<open>gchar\<close> is a \<^typ>\<open>char\<close> (one byte); its value as an
    \<^verbatim>\<open>unsigned char\<close> is \<open>byte c\<close>.
  \<^item> A C string (\<^verbatim>\<open>const gchar *\<close>) is the list of the bytes stored at the
    pointer; the end of the list stands for the terminating NUL. The library functions
    below stop at a NUL byte inside the list as the C functions do, so a list with an
    embedded NUL denotes the same C string as its prefix before that NUL
    (\<open>c_str\<close>).
  \<^item> \<^verbatim>\<open>glong\<close>, \<^verbatim>\<open>gint\<close> and \<^verbatim>\<open>int\<close> values are
    \<^typ>\<open>int\<close>; the indices and lengths involved are far below the 31/63-bit
    limits, and no claim depends on wrap-around.
  \<^item> A read outside a buffer, and every early \<^verbatim>\<open>return false\<close>, is a value
    of the result type (\<open>None\<close>, or an error constructor).
\<close>

section \<open>Bytes and C strings\<close>

definition NUL :: char where
  "NUL = CHR 0x00"

definition byte :: "char \<Rightarrow> int" where
  "byte c = int (of_char c)"

text \<open>The view of a byte list as a C string: the bytes before the first NUL.\<close>

definition c_str :: "string \<Rightarrow> string" where
  "c_str s = takeWhile (\<lambda>c. c \<noteq> NUL) s"

text \<open>
  GLib's \<^verbatim>\<open>g_ascii_isupper\<close> and the \<^verbatim>\<open>TOLOWER\<close> macro behind
  \<^verbatim>\<open>g_ascii_tolower\<close> and \<^verbatim>\<open>g_ascii_strcasecmp\<close>: only the ASCII letters
  \<^verbatim>\<open>A\<close> to \<^verbatim>\<open>Z\<close> are upper case, and
  \<^verbatim>\<open>TOLOWER(c) = ISUPPER(c) ? c - 'A' + 'a' : c\<close>.
\<close>

definition g_ascii_isupper :: "char \<Rightarrow> bool" where
  "g_ascii_isupper c = (65 \<le> byte c \<and> byte c \<le> 90)"

definition g_ascii_tolower :: "char \<Rightarrow> char" where
  "g_ascii_tolower c = (if g_ascii_isupper c then char_of (nat (byte c - 65 + 97)) else c)"

section \<open>The comparator (stardict\_strcmp, lines 59 to 66)\<close>

text \<open>
  \<^verbatim>\<open>strcmp\<close> of the C library, on unsigned bytes. The C standard fixes only the
  sign of the result; the difference of the first two differing bytes is what the usual
  implementations return, and the properties below use the sign only.
\<close>

fun strcmp :: "string \<Rightarrow> string \<Rightarrow> int" where
  "strcmp [] [] = 0"
| "strcmp [] (y # ys) = - byte y"
| "strcmp (x # xs) [] = byte x"
| "strcmp (x # xs) (y # ys) =
     (if x \<noteq> y then byte x - byte y
      else if x = NUL then 0
      else strcmp xs ys)"

text \<open>
  GLib's \<^verbatim>\<open>g_ascii_strcasecmp\<close>:
  \<^verbatim>\<open>while (*s1 && *s2) { c1 = TOLOWER(*s1); c2 = TOLOWER(*s2);
  if (c1 != c2) return c1 - c2; s1++; s2++; } return *s1 - *s2;\<close>
  on unsigned bytes.
\<close>

fun g_ascii_strcasecmp :: "string \<Rightarrow> string \<Rightarrow> int" where
  "g_ascii_strcasecmp [] [] = 0"
| "g_ascii_strcasecmp [] (y # ys) = - byte y"
| "g_ascii_strcasecmp (x # xs) [] = byte x"
| "g_ascii_strcasecmp (x # xs) (y # ys) =
     (if x \<noteq> NUL \<and> y \<noteq> NUL then
        (let c1 = byte (g_ascii_tolower x); c2 = byte (g_ascii_tolower y)
         in if c1 \<noteq> c2 then c1 - c2 else g_ascii_strcasecmp xs ys)
      else byte x - byte y)"

definition stardict_strcmp :: "string \<Rightarrow> string \<Rightarrow> int" where
  "stardict_strcmp s1 s2 =
     (let a = g_ascii_strcasecmp s1 s2
      in if a = 0 then strcmp s1 s2 else a)"

text \<open>
  The order the comparator induces, for the proofs: a string is ranked by its
  case-folded bytes first and by its bytes second, each list in lexicographic order.
\<close>

definition raw_key :: "string \<Rightarrow> int list" where
  "raw_key s = map byte (c_str s)"

definition folded_key :: "string \<Rightarrow> int list" where
  "folded_key s = map (\<lambda>c. byte (g_ascii_tolower c)) (c_str s)"

definition cmp_key :: "string \<Rightarrow> int list \<times> int list" where
  "cmp_key s = (folded_key s, raw_key s)"

section \<open>The query classifier (analyze\_query, lines 1550 to 1583)\<close>

datatype query_t = qtSIMPLE | qtREGEXP | qtFUZZY | qtDATA

definition bslash :: char where
  "bslash = CHR 0x5C"

text \<open>
  The scanning loop
  \<^verbatim>\<open>for (; *p; res += *p, ++p) { if (*p == BACKSLASH) { ++p; if (!*p) break; continue; }
  if (*p == '*' || *p == '?') regexp = true; }\<close>
  (\<^verbatim>\<open>BACKSLASH\<close> stands for the character literal of the backslash).
  The first argument is the string at \<^verbatim>\<open>p\<close>. After a backslash the
  \<^verbatim>\<open>continue\<close> runs the loop's increment, which appends the byte after the
  backslash without looking at it.
\<close>

fun analyze_scan :: "string \<Rightarrow> string \<Rightarrow> bool \<Rightarrow> string \<times> bool" where
  "analyze_scan [] res regexp = (res, regexp)"
| "analyze_scan (c # p) res regexp =
     (if c = NUL then (res, regexp)
      else if c = bslash then
        (case p of
           [] \<Rightarrow> (res, regexp)
         | x # p' \<Rightarrow> if x = NUL then (res, regexp) else analyze_scan p' (res @ [x]) regexp)
      else analyze_scan p (res @ [c]) (if c = CHR ''*'' \<or> c = CHR ''?'' then True else regexp))"

text \<open>
  \<^verbatim>\<open>analyze_query(s, res)\<close>; \<open>None\<close> is the null pointer. The result is the
  returned \<^verbatim>\<open>query_t\<close> and the final \<^verbatim>\<open>res\<close>.
\<close>

definition analyze_query :: "string option \<Rightarrow> query_t \<times> string" where
  "analyze_query s =
     (case s of
        None \<Rightarrow> (qtSIMPLE, [])
      | Some q \<Rightarrow>
          (case c_str q of
             [] \<Rightarrow> (qtSIMPLE, [])
           | c # rest \<Rightarrow>
               if c = CHR ''/'' then (qtFUZZY, rest)
               else if c = CHR ''|'' then (qtDATA, rest)
               else (let (res, regexp) = analyze_scan q [] False
                     in if regexp then (qtREGEXP, res) else (qtSIMPLE, res))))"

text \<open>
  The specification's reading of a query, for comparison: a backslash is an escape
  prefix, the byte after it is taken verbatim (marked \<open>True\<close>), every other byte
  stands for itself (marked \<open>False\<close>). A backslash that ends the query escapes
  nothing and yields no byte. The payload is the bytes without the escape prefixes;
  the query is a glob when an unescaped \<^verbatim>\<open>*\<close> or \<^verbatim>\<open>?\<close> occurs.
\<close>

fun spec_tokens :: "string \<Rightarrow> (bool \<times> char) list" where
  "spec_tokens [] = []"
| "spec_tokens [c] = (if c = bslash then [] else [(False, c)])"
| "spec_tokens (c # x # xs) =
     (if c = bslash then (True, x) # spec_tokens xs else (False, c) # spec_tokens (x # xs))"

definition spec_payload :: "string \<Rightarrow> string" where
  "spec_payload q = map snd (spec_tokens q)"

definition spec_is_glob :: "string \<Rightarrow> bool" where
  "spec_is_glob q = ((False, CHR ''*'') \<in> set (spec_tokens q) \<or> (False, CHR ''?'') \<in> set (spec_tokens q))"

section \<open>The first suffix rule of LookupSimilarWord (lines 1063 to 1073)\<close>

text \<open>
  \<^verbatim>\<open>bIsPureEnglish\<close> (lines 47 to 57): every byte of the word passes
  \<^verbatim>\<open>isascii\<close>.
\<close>

definition bIsPureEnglish :: "string \<Rightarrow> bool" where
  "bIsPureEnglish str = list_all (\<lambda>c. byte c < 128) (c_str str)"

text \<open>
  The memory of a C string: its bytes and the terminating NUL. A read at an index
  outside of it is \<open>None\<close>.
\<close>

definition c_buffer :: "string \<Rightarrow> string" where
  "c_buffer s = c_str s @ [NUL]"

definition strlen :: "string \<Rightarrow> int" where
  "strlen s = int (length (c_str s))"

definition buf_read :: "string \<Rightarrow> int \<Rightarrow> char option" where
  "buf_read buf i = (if 0 \<le> i \<and> i < int (length buf) then Some (buf ! nat i) else None)"

text \<open>
  \<^verbatim>\<open>strncmp(&buf[off], pat, n)\<close>: at most \<open>n\<close> bytes are compared, and the
  comparison stops at the first difference or at a NUL. Every byte it looks at in
  \<open>buf\<close> is a checked read.
\<close>

fun strncmp_at :: "string \<Rightarrow> int \<Rightarrow> string \<Rightarrow> nat \<Rightarrow> int option" where
  "strncmp_at buf off pat 0 = Some 0"
| "strncmp_at buf off pat (Suc n) =
     (case buf_read buf off of
        None \<Rightarrow> None
      | Some a \<Rightarrow>
          (let b = (case pat of [] \<Rightarrow> NUL | y # _ \<Rightarrow> y)
           in if a \<noteq> b then Some (byte a - byte b)
              else if a = NUL then Some 0
              else strncmp_at buf (off + 1) (tl pat) n))"

text \<open>
  Lines 1071 to 1073: the guard \<^verbatim>\<open>!bFound && iWordLen > 1\<close>, then
  \<^verbatim>\<open>isupcase = sWord[iWordLen - 1] == 'S' || !strncmp(&sWord[iWordLen - 2], "ED", 2)\<close>
  and the condition
  \<^verbatim>\<open>isupcase || sWord[iWordLen - 1] == 's' || !strncmp(&sWord[iWordLen - 2], "ed", 2)\<close>,
  with C's short-circuit evaluation. The result is \<open>None\<close> when a read leaves the
  word's memory, and otherwise \<^verbatim>\<open>isupcase\<close> and whether the rule's body runs.
\<close>

definition cut_s_or_ed_test :: "bool \<Rightarrow> string \<Rightarrow> (bool \<times> bool) option" where
  "cut_s_or_ed_test bFound sWord =
     (let buf = c_buffer sWord; iWordLen = strlen sWord
      in if \<not> bFound \<and> iWordLen > 1 then
           (case buf_read buf (iWordLen - 1) of
              None \<Rightarrow> None
            | Some l \<Rightarrow>
                (case (if l = CHR ''S'' then Some True
                       else map_option (\<lambda>r. r = 0) (strncmp_at buf (iWordLen - 2) ''ED'' 2)) of
                   None \<Rightarrow> None
                 | Some isupcase \<Rightarrow>
                     if isupcase then Some (True, True)
                     else if l = CHR ''s'' then Some (False, True)
                     else map_option (\<lambda>r. (False, r = 0)) (strncmp_at buf (iWordLen - 2) ''ed'' 2)))
         else Some (False, False))"

section \<open>The .ifo parser (DictInfo::load\_from\_ifo\_file, lines 77 to 170)\<close>

text \<open>
  GLib's \<^verbatim>\<open>g_ascii_isspace\<close>: space, horizontal tab, line feed, form feed and
  carriage return (not the vertical tab).
\<close>

definition g_ascii_isspace :: "char \<Rightarrow> bool" where
  "g_ascii_isspace c = (byte c = 32 \<or> byte c = 9 \<or> byte c = 10 \<or> byte c = 12 \<or> byte c = 13)"

definition LF :: char where
  "LF = CHR 0x0A"

definition CR :: char where
  "CR = CHR 0x0D"

definition is_line_end :: "char \<Rightarrow> bool" where
  "is_line_end ch = (ch = CR \<or> ch = LF)"

text \<open>
  \<^verbatim>\<open>atol\<close> of the C library: leading white space of the C locale, an optional
  sign, then decimal digits up to the first other byte. The result is a \<^verbatim>\<open>long\<close>,
  of 64 bits here; for digits that stand for a number outside of its range, where the
  C standard leaves the behaviour open, the model follows \<^verbatim>\<open>strtol\<close>, which gives
  the nearest number of the range.
\<close>

definition LONG_MAX :: int where
  "LONG_MAX = 2 ^ 63 - 1"

definition LONG_MIN :: int where
  "LONG_MIN = - (2 ^ 63)"

definition long_of :: "int \<Rightarrow> int" where
  "long_of x = (if x > LONG_MAX then LONG_MAX else if x < LONG_MIN then LONG_MIN else x)"

definition c_isspace :: "char \<Rightarrow> bool" where
  "c_isspace c = (byte c = 32 \<or> (9 \<le> byte c \<and> byte c \<le> 13))"

definition c_isdigit :: "char \<Rightarrow> bool" where
  "c_isdigit c = (48 \<le> byte c \<and> byte c \<le> 57)"

definition decimal :: "string \<Rightarrow> int" where
  "decimal ds = foldl (\<lambda>a d. 10 * a + (byte d - 48)) 0 ds"

definition atol :: "string \<Rightarrow> int" where
  "atol s =
     (let t = dropWhile c_isspace (c_str s)
      in case t of
           [] \<Rightarrow> 0
         | c # r \<Rightarrow>
             if c = CHR ''-'' then long_of (- decimal (takeWhile c_isdigit r))
             else if c = CHR ''+'' then long_of (decimal (takeWhile c_isdigit r))
             else long_of (decimal (takeWhile c_isdigit t)))"

text \<open>
  The \<^verbatim>\<open>std::map<std::string, std::string>\<close> of the parser, as an association
  list. \<^verbatim>\<open>insert\<close> keeps the value of a key that is already present.
\<close>

type_synonym key_value_map = "(string \<times> string) list"

definition map_insert :: "string \<Rightarrow> string \<Rightarrow> key_value_map \<Rightarrow> key_value_map" where
  "map_insert k v m = (case map_of m k of None \<Rightarrow> m @ [(k, v)] | Some _ \<Rightarrow> m)"

datatype ifo_error = CannotRead | NoMagic | NoEquals | MissingKey string

text \<open>
  The loop of lines 107 to 128. The first argument is the range from \<^verbatim>\<open>p\<close> to
  \<^verbatim>\<open>end\<close>; an iterator is the rest of the buffer from its position, and
  \<open>[]\<close> is \<^verbatim>\<open>end\<close>. The value of a key starts at the first byte after the
  \<^verbatim>\<open>=\<close> that is not white space (\<^verbatim>\<open>val_it\<close>) and runs to the next CR or
  LF or to the end.
\<close>

function parse_ifo_body :: "string \<Rightarrow> key_value_map \<Rightarrow> ifo_error + key_value_map" where
  "parse_ifo_body p m =
     (if p = [] then Inr m
      else
        let key_it = dropWhile g_ascii_isspace p
        in if key_it = [] then Inr m
           else
             let eq_it = dropWhile (\<lambda>ch. ch \<noteq> CHR ''='') key_it;
                 key = takeWhile (\<lambda>ch. ch \<noteq> CHR ''='') key_it
             in if eq_it = [] then Inl NoEquals
                else
                  let val_it = dropWhile g_ascii_isspace (tl eq_it)
                  in if val_it = [] then Inr (map_insert key [] m)
                     else
                       let line_end_it = dropWhile (\<lambda>ch. \<not> is_line_end ch) val_it;
                           val = takeWhile (\<lambda>ch. \<not> is_line_end ch) val_it;
                           m' = map_insert key val m
                       in if line_end_it = [] then Inr m'
                          else parse_ifo_body (tl line_end_it) m')"
  by pat_completeness auto
termination
proof (relation "measure (\<lambda>(p, m). length p)")
  show "wf (measure (\<lambda>(p, m). length p))" by simp
next
  fix p :: string and m :: key_value_map and key_it eq_it key val_it line_end_it val m'
  assume a: "p \<noteq> []" "key_it = dropWhile g_ascii_isspace p"
    "eq_it = dropWhile (\<lambda>ch. ch \<noteq> CHR ''='') key_it"
    "val_it = dropWhile g_ascii_isspace (tl eq_it)"
    "line_end_it = dropWhile (\<lambda>ch. \<not> is_line_end ch) val_it"
    "line_end_it \<noteq> []"
  have "length line_end_it \<le> length val_it"
    unfolding a by (rule length_dropWhile_le)
  also have "\<dots> \<le> length (tl eq_it)"
    unfolding a by (rule length_dropWhile_le)
  also have "\<dots> \<le> length eq_it" by simp
  also have "\<dots> \<le> length key_it"
    unfolding a by (rule length_dropWhile_le)
  also have "\<dots> \<le> length p"
    unfolding a by (rule length_dropWhile_le)
  finally have "length (tl line_end_it) < length p"
    using a(6) by (cases line_end_it) auto
  then show "((tl line_end_it, m'), (p, m)) \<in> measure (\<lambda>(p, m). length p)"
    by simp
qed

declare parse_ifo_body.simps [simp del]

record DictInfo =
  ifo_file_name :: string
  wordcount :: int
  syn_wordcount :: int
  bookname :: string
  author :: string
  email :: string
  website :: string
  date :: string
  description :: string
  index_file_size :: int
  sametypesequence :: string

definition TREEDICT_MAGIC_DATA :: string where
  "TREEDICT_MAGIC_DATA = ''StarDict's treedict ifo file''"

definition DICT_MAGIC_DATA :: string where
  "DICT_MAGIC_DATA = ''StarDict's dict ifo file''"

definition utf8_bom :: string where
  "utf8_bom = [CHR 0xEF, CHR 0xBB, CHR 0xBF]"

text \<open>
  \<^verbatim>\<open>g_str_has_prefix(p, prefix)\<close> for a prefix without a NUL byte; the buffer
  that \<^verbatim>\<open>g_file_get_contents\<close> returns is followed by a NUL, so the comparison
  stays inside it.
\<close>

definition g_str_has_prefix :: "string \<Rightarrow> string \<Rightarrow> bool" where
  "g_str_has_prefix p pre = (take (length pre) p = pre)"

text \<open>
  \<^verbatim>\<open>SET_IF_EXISTS\<close>: the field keeps its default, the empty string, when the key
  is absent.
\<close>

definition value_or_empty :: "key_value_map \<Rightarrow> string \<Rightarrow> string" where
  "value_or_empty m k = (case map_of m k of None \<Rightarrow> [] | Some v \<Rightarrow> v)"

text \<open>
  The lookups after the loop (lines 130 to 169). The header that declares the fields of
  \<^verbatim>\<open>DictInfo\<close> is not part of the sources at hand; the numeric fields hold the
  value of \<^verbatim>\<open>atol\<close> here.
\<close>

definition dict_info_of_map :: "string \<Rightarrow> bool \<Rightarrow> key_value_map \<Rightarrow> ifo_error + DictInfo" where
  "dict_info_of_map ifofilename istreedict m =
     (case map_of m ''wordcount'' of
        None \<Rightarrow> Inl (MissingKey ''wordcount'')
      | Some wc \<Rightarrow>
          (case map_of m (if istreedict then ''tdxfilesize'' else ''idxfilesize'') of
             None \<Rightarrow> Inl (MissingKey (if istreedict then ''tdxfilesize'' else ''idxfilesize''))
           | Some fs \<Rightarrow>
               (case map_of m ''bookname'' of
                  None \<Rightarrow> Inl (MissingKey ''bookname'')
                | Some bn \<Rightarrow>
                    Inr \<lparr> ifo_file_name = ifofilename,
                          wordcount = atol wc,
                          syn_wordcount =
                            (case map_of m ''synwordcount'' of None \<Rightarrow> 0 | Some sw \<Rightarrow> atol sw),
                          bookname = bn,
                          author = value_or_empty m ''author'',
                          email = value_or_empty m ''email'',
                          website = value_or_empty m ''website'',
                          date = value_or_empty m ''date'',
                          description = value_or_empty m ''description'',
                          index_file_size = atol fs,
                          sametypesequence = value_or_empty m ''sametypesequence'' \<rparr>)))"

text \<open>
  \<^verbatim>\<open>load_from_ifo_file\<close>. The first argument is what
  \<^verbatim>\<open>g_file_get_contents\<close> delivers: \<open>None\<close> when the file cannot be read, and
  the bytes of the file otherwise. \<open>Inl\<close> is \<^verbatim>\<open>return false\<close>, with the
  reason printed; \<open>Inr\<close> is \<^verbatim>\<open>return true\<close> with the fields as set.
\<close>

definition load_from_ifo_file :: "string option \<Rightarrow> string \<Rightarrow> bool \<Rightarrow> ifo_error + DictInfo" where
  "load_from_ifo_file contents ifofilename istreedict =
     (case contents of
        None \<Rightarrow> Inl CannotRead
      | Some buffer \<Rightarrow>
          let magic_data = (if istreedict then TREEDICT_MAGIC_DATA else DICT_MAGIC_DATA);
              p = (if g_str_has_prefix buffer utf8_bom then drop (length utf8_bom) buffer else buffer)
          in if \<not> g_str_has_prefix p magic_data then Inl NoMagic
             else
               (case parse_ifo_body (drop (length magic_data) p) [] of
                  Inl e \<Rightarrow> Inl e
                | Inr m \<Rightarrow> dict_info_of_map ifofilename istreedict m))"

text \<open>
  A line of a well-formed body, for the statement of the parser's behaviour: the key,
  the blanks between the \<^verbatim>\<open>=\<close> and the value, the value, and the line end with
  the white space that follows it. The key has no \<^verbatim>\<open>=\<close> and does not start with
  white space; the blanks are white space other than CR and LF; the value is not empty,
  does not start with white space and holds no CR or LF.
\<close>

record ifo_line =
  line_key :: string
  line_blanks :: string
  line_value :: string
  line_eol :: string

definition wf_ifo_fields :: "ifo_line \<Rightarrow> bool" where
  "wf_ifo_fields l =
     (CHR ''='' \<notin> set (line_key l) \<and>
      (line_key l = [] \<or> \<not> g_ascii_isspace (hd (line_key l))) \<and>
      list_all (\<lambda>c. g_ascii_isspace c \<and> \<not> is_line_end c) (line_blanks l) \<and>
      line_value l \<noteq> [] \<and> \<not> g_ascii_isspace (hd (line_value l)) \<and>
      list_all (\<lambda>c. \<not> is_line_end c) (line_value l))"

text \<open>
  A line that ends in the file: the line end starts with CR or LF and is white space
  throughout.
\<close>

definition wf_ifo_line :: "ifo_line \<Rightarrow> bool" where
  "wf_ifo_line l =
     (wf_ifo_fields l \<and>
      line_eol l \<noteq> [] \<and> is_line_end (hd (line_eol l)) \<and>
      list_all g_ascii_isspace (line_eol l))"

text \<open>The last line may also end with the file, its value at the end of the file.\<close>

definition wf_ifo_last_line :: "ifo_line \<Rightarrow> bool" where
  "wf_ifo_last_line l = (wf_ifo_fields l \<and> (line_eol l = [] \<or> wf_ifo_line l))"

fun wf_ifo_body :: "ifo_line list \<Rightarrow> bool" where
  "wf_ifo_body [] = True"
| "wf_ifo_body [l] = wf_ifo_last_line l"
| "wf_ifo_body (l # ls) = (wf_ifo_line l \<and> wf_ifo_body ls)"

definition render_line :: "ifo_line \<Rightarrow> string" where
  "render_line l = line_key l @ [CHR ''=''] @ line_blanks l @ line_value l @ line_eol l"

definition render_lines :: "ifo_line list \<Rightarrow> string" where
  "render_lines ls = concat (map render_line ls)"

definition insert_lines :: "key_value_map \<Rightarrow> ifo_line list \<Rightarrow> key_value_map" where
  "insert_lines m ls = foldl (\<lambda>m l. map_insert (line_key l) (line_value l) m) m ls"

text \<open>Two lines of a body, for the examples.\<close>

definition ex_lines :: "ifo_line list" where
  "ex_lines =
     [\<lparr> line_key = ''wordcount'', line_blanks = '' '', line_value = ''12 '', line_eol = [CR, LF] \<rparr>,
      \<lparr> line_key = ''bookname'', line_blanks = [], line_value = ''x y'', line_eol = [LF] \<rparr>]"

text \<open>The same two lines, the second without a line end: its value ends with the file.\<close>

definition ex_lines_eof :: "ifo_line list" where
  "ex_lines_eof =
     [\<lparr> line_key = ''wordcount'', line_blanks = '' '', line_value = ''12 '', line_eol = [CR, LF] \<rparr>,
      \<lparr> line_key = ''bookname'', line_blanks = [], line_value = ''x y '', line_eol = [] \<rparr>]"

section \<open>Loading a dictionary (Dict::load\_ifofile, Dict::load, Libs::load\_dict)\<close>

text \<open>
  What the loader asks of the file system and of the classes it opens: the bytes of a
  file (\<^verbatim>\<open>g_file_get_contents\<close>), whether a path exists
  (\<^verbatim>\<open>g_file_test\<close>), and whether \<^verbatim>\<open>DictData::open\<close>, \<^verbatim>\<open>fopen\<close> and
  the index's \<^verbatim>\<open>load\<close> succeed on a path.
\<close>

datatype index_kind = WordListIndexKind | OffsetIndexKind

datatype data_kind = DictDzData | PlainDictFile

record file_system =
  fs_contents :: "string \<Rightarrow> string option"
  fs_exists :: "string \<Rightarrow> bool"
  fs_dictdz_open :: "string \<Rightarrow> bool"
  fs_fopen :: "string \<Rightarrow> bool"
  fs_index_load :: "index_kind \<Rightarrow> string \<Rightarrow> int \<Rightarrow> int \<Rightarrow> bool"

text \<open>The fields \<^verbatim>\<open>Dict::load\<close> sets.\<close>

record Dict =
  dict_info :: DictInfo
  dict_data :: data_kind
  dict_index :: index_kind
  dict_index_name :: string

text \<open>
  \<^verbatim>\<open>Dict::load_ifofile\<close> (lines 967 to 985): \<open>None\<close> is
  \<^verbatim>\<open>return false\<close>; otherwise the fields copied from the \<^verbatim>\<open>DictInfo\<close> and
  \<^verbatim>\<open>idxfilesize\<close>.
\<close>

definition load_ifofile :: "file_system \<Rightarrow> string \<Rightarrow> (DictInfo \<times> int) option" where
  "load_ifofile fs ifofilename =
     (case load_from_ifo_file (fs_contents fs ifofilename) ifofilename False of
        Inl e \<Rightarrow> None
      | Inr info \<Rightarrow> if wordcount info = 0 then None else Some (info, index_file_size info))"

datatype load_error = ReturnedFalse | OutOfRange

text \<open>
  \<^verbatim>\<open>fullfilename.replace(fullfilename.length() - sizeof("ifo") + 1, sizeof("ifo") - 1, ext)\<close>
  replaces the last three bytes; on a name shorter than three bytes the position wraps
  around and \<^verbatim>\<open>std::string::replace\<close> throws \<^verbatim>\<open>std::out_of_range\<close>.
  \<^verbatim>\<open>erase\<close> with the same position removes the last three bytes.
\<close>

definition replace_ifo :: "string \<Rightarrow> string \<Rightarrow> load_error + string" where
  "replace_ifo name ext =
     (if length name < 3 then Inl OutOfRange else Inr (take (length name - 3) name @ ext))"

definition erase_last3 :: "string \<Rightarrow> string" where
  "erase_last3 name = take (length name - 3) name"

text \<open>
  \<^verbatim>\<open>Dict::load\<close> (lines 921 to 965). \<open>Inl ReturnedFalse\<close> is
  \<^verbatim>\<open>return false\<close>. The result of loading the synonym file is ignored by the
  source and has no part here.
\<close>

definition Dict_load :: "file_system \<Rightarrow> string \<Rightarrow> load_error + Dict" where
  "Dict_load fs ifofilename =
     (case load_ifofile fs ifofilename of
        None \<Rightarrow> Inl ReturnedFalse
      | Some (info, idxfilesize) \<Rightarrow>
          (case replace_ifo ifofilename ''dict.dz'' of
             Inl e \<Rightarrow> Inl e
           | Inr dz \<Rightarrow>
               (case (if fs_exists fs dz
                      then (if fs_dictdz_open fs dz then Some DictDzData else None)
                      else (if fs_fopen fs (erase_last3 dz) then Some PlainDictFile else None)) of
                  None \<Rightarrow> Inl ReturnedFalse
                | Some data \<Rightarrow>
                    (case replace_ifo ifofilename ''idx.gz'' of
                       Inl e \<Rightarrow> Inl e
                     | Inr gz \<Rightarrow>
                         let (kind, idxname) =
                               (if fs_exists fs gz then (WordListIndexKind, gz)
                                else (OffsetIndexKind, erase_last3 gz))
                         in if \<not> fs_index_load fs kind idxname (wordcount info) idxfilesize
                            then Inl ReturnedFalse
                            else Inr \<lparr> dict_info = info, dict_data = data,
                                       dict_index = kind, dict_index_name = idxname \<rparr>))))"

text \<open>
  \<^verbatim>\<open>Libs::load_dict\<close> (lines 1006 to 1013): the dictionary is appended to
  \<^verbatim>\<open>oLib\<close> when \<^verbatim>\<open>load\<close> returns true and dropped when it returns false.
\<close>

definition load_dict :: "file_system \<Rightarrow> Dict list \<Rightarrow> string \<Rightarrow> load_error + Dict list" where
  "load_dict fs oLib url =
     (case Dict_load fs url of
        Inr lib \<Rightarrow> Inr (oLib @ [lib])
      | Inl ReturnedFalse \<Rightarrow> Inr oLib
      | Inl OutOfRange \<Rightarrow> Inl OutOfRange)"

text \<open>
  A file system in which every companion file exists and opens, and the .ifo file holds
  the given bytes.
\<close>

definition complete_file_system :: "string \<Rightarrow> file_system" where
  "complete_file_system ifo =
     \<lparr> fs_contents = (\<lambda>name. Some ifo), fs_exists = (\<lambda>name. True),
       fs_dictdz_open = (\<lambda>name. True), fs_fopen = (\<lambda>name. True),
       fs_index_load = (\<lambda>kind name wc fsize. True) \<rparr>"

text \<open>
  The bytes of an .ifo file with the required keys, for the examples: its
  \<^verbatim>\<open>wordcount\<close> is 0 when the argument is 0, and 3 otherwise.
\<close>

definition ex_ifo :: "int \<Rightarrow> string" where
  "ex_ifo n =
     DICT_MAGIC_DATA @ [LF] @ ''version=2.4.2'' @ [LF] @
     ''wordcount='' @ (if n = 0 then ''0'' else ''3'') @ [LF] @
     ''idxfilesize=40'' @ [LF] @ ''bookname=Example'' @ [LF]"

section \<open>The index lookups (WordListIndex::lookup, OffsetIndex::lookup)\<close>

text \<open>
  Modelled from the spec: \<^verbatim>\<open>INVALID_INDEX\<close> is declared in the header
  \<^verbatim>\<open>stardict_lib.hpp\<close>, which is not among the sources; the specification calls
  it a sentinel, defined as -1 or equivalent. No property below depends on its value.
\<close>

definition INVALID_INDEX :: int where
  "INVALID_INDEX = - 1"

text \<open>C's division of a \<^verbatim>\<open>glong\<close> by 2 rounds towards zero.\<close>

definition c_div2 :: "int \<Rightarrow> int" where
  "c_div2 x = (if 0 \<le> x then x div 2 else - ((- x) div 2))"

text \<open>
  A read of entry \<open>i\<close> of a vector or array of keys: \<open>None\<close> outside of it.
\<close>

definition key_at :: "string list \<Rightarrow> int \<Rightarrow> string option" where
  "key_at keys i = (if 0 \<le> i \<and> i < int (length keys) then Some (keys ! nat i) else None)"

text \<open>
  The binary search loop, which the source writes three times over three ways to read a
  key (lines 702 to 713, 730 to 741 and 810 to 821):
  \<^verbatim>\<open>while (iFrom <= iTo) { iThisIndex = (iFrom + iTo) / 2;
  cmpint = stardict_strcmp(str, KEY(iThisIndex));
  if (cmpint > 0) iFrom = iThisIndex + 1; else if (cmpint < 0) iTo = iThisIndex - 1;
  else { bFound = true; break; } }\<close>.
  The result is \<^verbatim>\<open>bFound\<close>, \<^verbatim>\<open>iThisIndex\<close>, \<^verbatim>\<open>iFrom\<close> and
  \<^verbatim>\<open>iTo\<close> after the loop, or \<open>None\<close> when a key is read out of range.
\<close>

function search_loop ::
  "(int \<Rightarrow> string option) \<Rightarrow> string \<Rightarrow> int \<Rightarrow> int \<Rightarrow> int \<Rightarrow> (bool \<times> int \<times> int \<times> int) option" where
  "search_loop key str iFrom iTo iThisIndex =
     (if iFrom \<le> iTo then
        (let iThisIndex' = c_div2 (iFrom + iTo)
         in case key iThisIndex' of
              None \<Rightarrow> None
            | Some k \<Rightarrow>
                (let cmpint = stardict_strcmp str k
                 in if cmpint > 0 then search_loop key str (iThisIndex' + 1) iTo iThisIndex'
                    else if cmpint < 0 then search_loop key str iFrom (iThisIndex' - 1) iThisIndex'
                    else Some (True, iThisIndex', iFrom, iTo)))
      else Some (False, iThisIndex, iFrom, iTo))"
  by pat_completeness auto
termination
  by (relation "measure (\<lambda>(key, str, iFrom, iTo, iThisIndex). nat (iTo - iFrom + 1))")
    (auto simp: c_div2_def)

declare search_loop.simps [simp del]

text \<open>
  The walk behind the found index (lines 751 to 753 and 827 to 829):
  \<^verbatim>\<open>while (iHeadIndex >= 0 && stardict_strcmp(str, get_key(iHeadIndex)) == 0)
  idxs.insert(iHeadIndex--);\<close>
\<close>

function walk_behind ::
  "(int \<Rightarrow> string option) \<Rightarrow> string \<Rightarrow> int \<Rightarrow> int set \<Rightarrow> int set option" where
  "walk_behind key str iHeadIndex idxs =
     (if iHeadIndex \<ge> 0 then
        (case key iHeadIndex of
           None \<Rightarrow> None
         | Some k \<Rightarrow>
             if stardict_strcmp str k = 0
             then walk_behind key str (iHeadIndex - 1) (insert iHeadIndex idxs)
             else Some idxs)
      else Some idxs)"
  by pat_completeness auto
termination
  by (relation "measure (\<lambda>(key, str, iHeadIndex, idxs). nat (iHeadIndex + 1))") auto

declare walk_behind.simps [simp del]

text \<open>
  The walk ahead (lines 754 to 756 and 830 to 832):
  \<^verbatim>\<open>do idxs.insert(iThisIndex++);
  while (iThisIndex <= iLast && stardict_strcmp(str, get_key(iThisIndex)) == 0);\<close>
\<close>

function walk_ahead ::
  "(int \<Rightarrow> string option) \<Rightarrow> string \<Rightarrow> int \<Rightarrow> int \<Rightarrow> int set \<Rightarrow> int set option" where
  "walk_ahead key str iLast iThisIndex idxs =
     (let idxs' = insert iThisIndex idxs; iThisIndex' = iThisIndex + 1
      in if iThisIndex' \<le> iLast then
           (case key iThisIndex' of
              None \<Rightarrow> None
            | Some k \<Rightarrow>
                if stardict_strcmp str k = 0
                then walk_ahead key str iLast iThisIndex' idxs'
                else Some idxs')
         else Some idxs')"
  by pat_completeness auto
termination
  by (relation "measure (\<lambda>(key, str, iLast, iThisIndex, idxs). nat (iLast - iThisIndex))") auto

declare walk_ahead.simps [simp del]

text \<open>
  Both walks, from the found index \<^verbatim>\<open>iThisIndex\<close>.
\<close>

definition walk_matches ::
  "(int \<Rightarrow> string option) \<Rightarrow> string \<Rightarrow> int \<Rightarrow> int \<Rightarrow> int set \<Rightarrow> int set option" where
  "walk_matches key str iLast iThisIndex idxs =
     (case walk_behind key str (iThisIndex - 1) idxs of
        None \<Rightarrow> None
      | Some idxs' \<Rightarrow> walk_ahead key str iLast iThisIndex idxs')"

subsection \<open>WordListIndex\<close>

text \<open>
  The index that is held in memory. \<^verbatim>\<open>wordlist\<close> has one pointer for each of
  the \<^verbatim>\<open>wc\<close> entries and one more for the end of the data; the model keeps the
  keys of the entries, so \<^verbatim>\<open>wordlist.size()\<close> is their number plus one.
  \<^verbatim>\<open>get_key(idx)\<close> is \<^verbatim>\<open>wordlist[idx]\<close>.

  \<^verbatim>\<open>WordListIndex::lookup\<close> (lines 797 to 836). The arguments \<^verbatim>\<open>idxs\<close> and
  \<^verbatim>\<open>next_idx\<close> are passed by reference; the result is the returned
  \<^verbatim>\<open>bFound\<close> and their values on return.
\<close>

definition WordListIndex_lookup ::
  "string list \<Rightarrow> string \<Rightarrow> int set \<Rightarrow> int \<Rightarrow> (bool \<times> int set \<times> int) option" where
  "WordListIndex_lookup wordlist str idxs next_idx =
     (let get_key = key_at wordlist;
          iLast = (int (length wordlist) + 1) - 2
      in case get_key 0 of
           None \<Rightarrow> None
         | Some k0 \<Rightarrow>
             if stardict_strcmp str k0 < 0 then Some (False, idxs, 0)
             else
               (case get_key iLast of
                  None \<Rightarrow> None
                | Some kl \<Rightarrow>
                    if stardict_strcmp str kl > 0 then Some (False, idxs, INVALID_INDEX)
                    else
                      (case search_loop get_key str 0 iLast 0 of
                         None \<Rightarrow> None
                       | Some (bFound, iThisIndex, iFrom, iTo) \<Rightarrow>
                           if \<not> bFound then Some (False, idxs, iFrom)
                           else
                             (case walk_matches get_key str iLast iThisIndex idxs of
                                None \<Rightarrow> None
                              | Some idxs' \<Rightarrow> Some (True, idxs', next_idx)))))"

subsection \<open>OffsetIndex\<close>

text \<open>
  The paged index. The .idx file is its sequence of entries, of which the model keeps
  the keys (\<open>oi_keys\<close>); \<^verbatim>\<open>wordoffset\<close> has one offset for each page of
  \<^verbatim>\<open>ENTR_PER_PAGE = 32\<close> entries and one for the end of the file, and the model
  keeps its size. The four anchors are what \<^verbatim>\<open>load\<close> stored.
\<close>

definition ENTR_PER_PAGE :: int where
  "ENTR_PER_PAGE = 32"

record index_entry =
  idx :: int
  keystr :: string

record OffsetIndex =
  oi_keys :: "string list"
  oi_wordcount :: int
  oi_wordoffset_size :: int
  oi_first :: index_entry
  oi_last :: index_entry
  oi_middle :: index_entry
  oi_real_last :: index_entry

text \<open>
  \<^verbatim>\<open>gchar wordentry_buf[256 + sizeof(guint32) * 2]\<close> (line 449).
\<close>

definition sizeof_wordentry_buf :: int where
  "sizeof_wordentry_buf = 256 + 4 * 2"

text \<open>
  \<^verbatim>\<open>read_first_on_page_key(page_idx)\<close> (lines 523 to 533) reads the file from
  \<^verbatim>\<open>wordoffset[page_idx]\<close> into \<^verbatim>\<open>wordentry_buf\<close>, as many bytes as the
  page has but at most \<^verbatim>\<open>sizeof(wordentry_buf)\<close> (\<^verbatim>\<open>std::min\<close>, line 528),
  and returns the buffer, which the callers read as a C string. The entry that starts at
  \<^verbatim>\<open>wordoffset[page_idx]\<close> is entry \<^verbatim>\<open>32 * page_idx\<close>, and a page holds
  all of its first entry. So when the key of that entry is shorter than the buffer, its
  terminating NUL is in the buffer and the result is the key; when it has
  \<^verbatim>\<open>sizeof(wordentry_buf)\<close> bytes or more, the buffer holds no NUL and the
  caller's read runs past the buffer, which the model counts as out of range. Both
  offsets must be entries of \<^verbatim>\<open>wordoffset\<close>.
\<close>

definition read_first_on_page_key :: "string list \<Rightarrow> int \<Rightarrow> int \<Rightarrow> string option" where
  "read_first_on_page_key keys wordoffset_size page_idx =
     (if 0 \<le> page_idx \<and> page_idx + 1 < wordoffset_size then
        (case key_at keys (ENTR_PER_PAGE * page_idx) of
           None \<Rightarrow> None
         | Some k \<Rightarrow> if strlen k < sizeof_wordentry_buf then Some k else None)
      else None)"

text \<open>
  \<^verbatim>\<open>load_page(page_idx)\<close> (lines 658 to 675) returns the number of entries of the
  page, which is 32 but for the last page. After it \<^verbatim>\<open>page.entries[i]\<close> is entry
  \<^verbatim>\<open>32 * page_idx + i\<close> of the file for \<open>i\<close> below that number; the slots above
  keep what an earlier page left there, and the model counts a read of them as out of
  range.
\<close>

definition load_page :: "OffsetIndex \<Rightarrow> int \<Rightarrow> int option" where
  "load_page oi page_idx =
     (if 0 \<le> page_idx \<and> page_idx + 1 < oi_wordoffset_size oi then
        Some (if page_idx = oi_wordoffset_size oi - 2
              then (if oi_wordcount oi mod ENTR_PER_PAGE = 0 then ENTR_PER_PAGE
                    else oi_wordcount oi mod ENTR_PER_PAGE)
              else ENTR_PER_PAGE)
      else None)"

definition page_entry_key :: "OffsetIndex \<Rightarrow> int \<Rightarrow> int \<Rightarrow> string option" where
  "page_entry_key oi page_idx i =
     (case load_page oi page_idx of
        None \<Rightarrow> None
      | Some nentr \<Rightarrow>
          if 0 \<le> i \<and> i < nentr then key_at (oi_keys oi) (ENTR_PER_PAGE * page_idx + i) else None)"

text \<open>
  \<^verbatim>\<open>OffsetIndex::get_key(idx)\<close> (lines 677 to 685):
  \<^verbatim>\<open>load_page(idx / ENTR_PER_PAGE)\<close>, then
  \<^verbatim>\<open>page.entries[idx % ENTR_PER_PAGE].keystr\<close>. It is called with
  \<^verbatim>\<open>idx >= 0\<close> only.
\<close>

definition OffsetIndex_get_key :: "OffsetIndex \<Rightarrow> int \<Rightarrow> string option" where
  "OffsetIndex_get_key oi i =
     (if 0 \<le> i then page_entry_key oi (i div ENTR_PER_PAGE) (i mod ENTR_PER_PAGE) else None)"

text \<open>\<^verbatim>\<open>get_first_on_page_key\<close> (lines 535 to 547) answers from the anchors where it can.\<close>

definition get_first_on_page_key :: "OffsetIndex \<Rightarrow> int \<Rightarrow> string option" where
  "get_first_on_page_key oi page_idx =
     (if page_idx < idx (oi_middle oi) then
        (if page_idx = idx (oi_first oi) then Some (keystr (oi_first oi))
         else read_first_on_page_key (oi_keys oi) (oi_wordoffset_size oi) page_idx)
      else if page_idx > idx (oi_middle oi) then
        (if page_idx = idx (oi_last oi) then Some (keystr (oi_last oi))
         else read_first_on_page_key (oi_keys oi) (oi_wordoffset_size oi) page_idx)
      else Some (keystr (oi_middle oi)))"

text \<open>
  \<^verbatim>\<open>OffsetIndex::load\<close> (lines 618 to 656), on an .idx file whose entries have the
  given keys and whose number is the \<^verbatim>\<open>wordcount\<close> of the .ifo file (invariant I2;
  \<^verbatim>\<open>Dict::load_ifofile\<close> has refused a \<^verbatim>\<open>wordcount\<close> of 0).
\<close>

definition OffsetIndex_load :: "string list \<Rightarrow> OffsetIndex option" where
  "OffsetIndex_load keys =
     (let wc = int (length keys);
          npages = (wc - 1) div ENTR_PER_PAGE + 2
      in if wc = 0 then None
         else
           (case (read_first_on_page_key keys npages 0,
                  read_first_on_page_key keys npages (npages - 2),
                  read_first_on_page_key keys npages ((npages - 2) div 2)) of
              (Some f, Some l, Some m) \<Rightarrow>
                (let oi = \<lparr> oi_keys = keys, oi_wordcount = wc, oi_wordoffset_size = npages,
                            oi_first = \<lparr> idx = 0, keystr = f \<rparr>,
                            oi_last = \<lparr> idx = npages - 2, keystr = l \<rparr>,
                            oi_middle = \<lparr> idx = (npages - 2) div 2, keystr = m \<rparr>,
                            oi_real_last = \<lparr> idx = wc - 1, keystr = [] \<rparr> \<rparr>
                 in case OffsetIndex_get_key oi (wc - 1) of
                      None \<Rightarrow> None
                    | Some r \<Rightarrow> Some (oi \<lparr> oi_real_last := \<lparr> idx = wc - 1, keystr = r \<rparr> \<rparr>))
            | _ \<Rightarrow> None))"

text \<open>\<^verbatim>\<open>OffsetIndex::lookup\<close> (lines 687 to 759).\<close>

definition OffsetIndex_lookup ::
  "OffsetIndex \<Rightarrow> string \<Rightarrow> int set \<Rightarrow> int \<Rightarrow> (bool \<times> int set \<times> int) option" where
  "OffsetIndex_lookup oi str idxs next_idx =
     (if stardict_strcmp str (keystr (oi_first oi)) < 0 then Some (False, idxs, 0)
      else if stardict_strcmp str (keystr (oi_real_last oi)) > 0 then Some (False, idxs, INVALID_INDEX)
      else
        (case search_loop (get_first_on_page_key oi) str 0 (oi_wordoffset_size oi - 2) 0 of
           None \<Rightarrow> None
         | Some (bFound, iThisIndex, iFrom, iTo) \<Rightarrow>
             (case (if bFound then Some (True, iThisIndex, 0, iFrom)
                    else
                      (case load_page oi iTo of
                         None \<Rightarrow> None
                       | Some netr \<Rightarrow>
                           (case search_loop (page_entry_key oi iTo) str 0 (netr - 1) iThisIndex of
                              None \<Rightarrow> None
                            | Some (bFound', iThisIndex', iFrom', iTo') \<Rightarrow>
                                Some (bFound', iTo, iThisIndex', iFrom')))) of
                None \<Rightarrow> None
              | Some (bFound, iPage, iThisIndex, iFrom) \<Rightarrow>
                  if \<not> bFound then Some (False, idxs, iPage * ENTR_PER_PAGE + iFrom)
                  else
                    (case walk_matches (OffsetIndex_get_key oi) str (idx (oi_real_last oi))
                            (iPage * ENTR_PER_PAGE + iThisIndex) idxs of
                       None \<Rightarrow> None
                     | Some idxs' \<Rightarrow> Some (True, idxs', next_idx)))))"

text \<open>
  Invariant I1 of the specification: the keys of an index are in ascending order under
  the comparator.
\<close>

definition index_sorted :: "string list \<Rightarrow> bool" where
  "index_sorted keys = sorted_wrt (\<lambda>a b. stardict_strcmp a b \<le> 0) keys"

text \<open>
  The limit of the file format on a headword, which the specification gives as at most
  255 bytes, in the form that \<^verbatim>\<open>OffsetIndex\<close> needs: every key with its
  terminating NUL fits into \<^verbatim>\<open>wordentry_buf\<close>.
\<close>

definition keys_fit :: "string list \<Rightarrow> bool" where
  "keys_fit keys = list_all (\<lambda>k. strlen k < sizeof_wordentry_buf) keys"

text \<open>The indices whose key equals the query under the comparator.\<close>

definition matching :: "string list \<Rightarrow> string \<Rightarrow> int set" where
  "matching keys str = {i. 0 \<le> i \<and> i < int (length keys) \<and> stardict_strcmp str (keys ! nat i) = 0}"

text \<open>
  The specification's account of a lookup, for comparison: the set of all matching
  indices when there is one, and otherwise \<^verbatim>\<open>next_idx\<close>, which is the insertion
  point (the number of keys below the query) or \<^verbatim>\<open>INVALID_INDEX\<close> when the query
  is past the last key. The arguments \<^verbatim>\<open>idxs\<close> and \<^verbatim>\<open>next_idx\<close> are as
  for the lookups.
\<close>

definition insertion_point :: "string list \<Rightarrow> string \<Rightarrow> int" where
  "insertion_point keys str = int (length (takeWhile (\<lambda>k. stardict_strcmp str k > 0) keys))"

definition spec_lookup :: "string list \<Rightarrow> string \<Rightarrow> int set \<Rightarrow> int \<Rightarrow> bool \<times> int set \<times> int" where
  "spec_lookup keys str idxs next_idx =
     (if matching keys str \<noteq> {} then (True, idxs \<union> matching keys str, next_idx)
      else (False, idxs,
            if stardict_strcmp str (last keys) > 0 then INVALID_INDEX
            else insertion_point keys str))"

text \<open>
  The index that \<^verbatim>\<open>OffsetIndex::load\<close> builds from a non-empty sequence of keys,
  written out (see \<open>OffsetIndex_load_keys\<close> below).
\<close>

definition last_page :: "string list \<Rightarrow> int" where
  "last_page keys = (int (length keys) - 1) div ENTR_PER_PAGE"

definition loaded_index :: "string list \<Rightarrow> OffsetIndex" where
  "loaded_index keys =
     \<lparr> oi_keys = keys, oi_wordcount = int (length keys), oi_wordoffset_size = last_page keys + 2,
       oi_first = \<lparr> idx = 0, keystr = keys ! 0 \<rparr>,
       oi_last = \<lparr> idx = last_page keys, keystr = keys ! nat (ENTR_PER_PAGE * last_page keys) \<rparr>,
       oi_middle = \<lparr> idx = last_page keys div 2,
                     keystr = keys ! nat (ENTR_PER_PAGE * (last_page keys div 2)) \<rparr>,
       oi_real_last = \<lparr> idx = int (length keys) - 1, keystr = last keys \<rparr> \<rparr>"

text \<open>
  Two indices for the examples: five keys with a pair of equal ones, and forty keys
  (\<^verbatim>\<open>AA\<close> to \<^verbatim>\<open>DJ\<close>), which fill one page of 32 entries and a second page
  of 8.
\<close>

definition five_keys :: "string list" where
  "five_keys = [''APPLE'', ''apple'', ''apple'', ''banana'', ''cherry'']"

definition forty_keys :: "string list" where
  "forty_keys = [
      ''AA'', ''AB'', ''AC'', ''AD'', ''AE'', ''AF'', ''AG'', ''AH'', ''AI'', ''AJ'',
      ''BA'', ''BB'', ''BC'', ''BD'', ''BE'', ''BF'', ''BG'', ''BH'', ''BI'', ''BJ'',
      ''CA'', ''CB'', ''CC'', ''CD'', ''CE'', ''CF'', ''CG'', ''CH'', ''CI'', ''CJ'',
      ''DA'', ''DB'', ''DC'', ''DD'', ''DE'', ''DF'', ''DG'', ''DH'', ''DI'', ''DJ'']"

text \<open>
  A linear check of invariant I1, for the examples: each key is not above the next one.
  By the transitivity of the comparator it is the same as \<open>index_sorted\<close>.
\<close>

fun adjacent_sorted :: "string list \<Rightarrow> bool" where
  "adjacent_sorted (a # b # rest) = (stardict_strcmp a b \<le> 0 \<and> adjacent_sorted (b # rest))"
| "adjacent_sorted _ = True"

text \<open>
  An index with five equal keys at the indices 30 to 34, on both sides of the boundary
  between its first and its second page: thirty keys, five times \<^verbatim>\<open>DA\<close>, five keys.
\<close>

definition thirty_keys :: "string list" where
  "thirty_keys = [
      ''AA'', ''AB'', ''AC'', ''AD'', ''AE'', ''AF'', ''AG'', ''AH'', ''AI'', ''AJ'',
      ''BA'', ''BB'', ''BC'', ''BD'', ''BE'', ''BF'', ''BG'', ''BH'', ''BI'', ''BJ'',
      ''CA'', ''CB'', ''CC'', ''CD'', ''CE'', ''CF'', ''CG'', ''CH'', ''CI'', ''CJ'']"

definition five_duplicates :: "string list" where
  "five_duplicates = [''DA'', ''DA'', ''DA'', ''DA'', ''DA'']"

definition five_more_keys :: "string list" where
  "five_more_keys = [''EA'', ''EB'', ''EC'', ''ED'', ''EE'']"

section \<open>The full-text search (DictBase::SearchData, Libs::LookupData)\<close>

subsection \<open>The needles of a query (lines 1480 to 1517)\<close>

definition TAB :: char where
  "TAB = CHR 0x09"

definition SPACE :: char where
  "SPACE = CHR 0x20"

text \<open>The \<^verbatim>\<open>switch\<close> on the byte after a backslash.\<close>

definition escaped_char :: "char \<Rightarrow> char" where
  "escaped_char x =
     (if x = SPACE then SPACE
      else if x = bslash then bslash
      else if x = CHR ''t'' then TAB
      else if x = CHR ''n'' then LF
      else x)"

text \<open>
  The loop \<^verbatim>\<open>while (*p)\<close> and the statements after it, up to the test of
  \<^verbatim>\<open>SearchWords.empty()\<close>. The arguments are the string at \<^verbatim>\<open>p\<close>,
  \<^verbatim>\<open>SearchWord\<close> and \<^verbatim>\<open>SearchWords\<close>. After a backslash the loop steps
  over the next byte without testing it: when that byte is the terminating NUL, the
  next test of \<^verbatim>\<open>*p\<close> reads behind the string, which is \<open>None\<close> here.
\<close>

fun parse_needles :: "string \<Rightarrow> string \<Rightarrow> string list \<Rightarrow> string list option" where
  "parse_needles [] SearchWord SearchWords =
     Some (if SearchWord \<noteq> [] then SearchWords @ [SearchWord] else SearchWords)"
| "parse_needles (c # p) SearchWord SearchWords =
     (if c = NUL then Some (if SearchWord \<noteq> [] then SearchWords @ [SearchWord] else SearchWords)
      else if c = bslash then
        (case p of
           [] \<Rightarrow> None
         | x # p' \<Rightarrow>
             if x = NUL then None
             else parse_needles p' (SearchWord @ [escaped_char x]) SearchWords)
      else if c = SPACE then
        (if SearchWord \<noteq> [] then parse_needles p [] (SearchWords @ [SearchWord])
         else parse_needles p SearchWord SearchWords)
      else parse_needles p (SearchWord @ [c]) SearchWords)"

text \<open>
  The specification's reading of a data query, for comparison: a backslash and the byte
  after it stand for one literal byte (marked \<open>True\<close>), every other byte for itself;
  the needles are the runs of bytes between the unescaped spaces, empty runs dropped.
  A query that ends in a lone backslash has no reading.
\<close>

fun data_tokens :: "string \<Rightarrow> (bool \<times> char) list option" where
  "data_tokens [] = Some []"
| "data_tokens [c] = (if c = bslash then None else Some [(False, c)])"
| "data_tokens (c # x # xs) =
     (if c = bslash then map_option ((#) (True, escaped_char x)) (data_tokens xs)
      else map_option ((#) (False, c)) (data_tokens (x # xs)))"

fun split_tokens :: "(bool \<times> char) list \<Rightarrow> string \<Rightarrow> string list" where
  "split_tokens [] cur = (if cur \<noteq> [] then [cur] else [])"
| "split_tokens (t # ts) cur =
     (if t = (False, SPACE) then (if cur \<noteq> [] then cur # split_tokens ts [] else split_tokens ts [])
      else split_tokens ts (cur @ [snd t]))"

definition spec_needles :: "string \<Rightarrow> string list option" where
  "spec_needles q = map_option (\<lambda>ts. split_tokens ts []) (data_tokens q)"

subsection \<open>The search in one record (lines 315 to 416)\<close>

text \<open>
  \<^verbatim>\<open>strstr(haystack, needle)\<close> as a truth value: the needle occurs in the
  haystack. Both are C strings without their terminator.
\<close>

fun strstr :: "string \<Rightarrow> string \<Rightarrow> bool" where
  "strstr [] needle = (needle = [])"
| "strstr (h # hs) needle = (take (length needle) (h # hs) = needle \<or> strstr hs needle)"

text \<open>
  The record is the \<^verbatim>\<open>idxitem_size\<close> bytes that were read to
  \<^verbatim>\<open>origin_data\<close>; the size is a \<^verbatim>\<open>guint32\<close>, so a record has less than
  \<open>2 ^ 32\<close> bytes. The pointer \<^verbatim>\<open>p\<close> is kept as the offset
  \<^verbatim>\<open>p - origin_data\<close>, which the source lets run past the record. A result of
  \<open>None\<close> stands for a call that delivers no result: a read outside of the record
  (into what an earlier record left in the buffer, or behind the buffer), an exception
  of \<^verbatim>\<open>THROW_IF_ERROR\<close>, or a loop that does not end.

  The C string that starts at an offset: \<open>None\<close> when no NUL follows inside the
  record, so that \<^verbatim>\<open>strstr\<close> and \<^verbatim>\<open>strlen\<close> would read past it.
\<close>

definition c_string_at :: "string \<Rightarrow> nat \<Rightarrow> string option" where
  "c_string_at data off =
     (if NUL \<in> set (drop off data) then Some (c_str (drop off data)) else None)"

text \<open>The seven types in the \<^verbatim>\<open>case\<close> labels: the fields that are searched.\<close>

definition is_search_type :: "char \<Rightarrow> bool" where
  "is_search_type t = (t \<in> set ''mtylgxk'')"

text \<open>
  The loop over the needles,
  \<^verbatim>\<open>for (j = 0; j < nWord; j++) if (!WordFind[j] && strstr(p, SearchWords[j].c_str()))
  { WordFind[j] = true; ++nfound; }\<close>,
  over the text \<open>hay\<close> at \<^verbatim>\<open>p\<close>. The result is \<^verbatim>\<open>WordFind\<close> and
  \<^verbatim>\<open>nfound\<close> after it.
\<close>

fun mark_found :: "string \<Rightarrow> string list \<Rightarrow> bool list \<Rightarrow> int \<Rightarrow> bool list \<times> int" where
  "mark_found hay (w # ws) (f # fs) nfound =
     (if \<not> f \<and> strstr hay (c_str w)
      then (let (fs', n') = mark_found hay ws fs (nfound + 1) in (True # fs', n'))
      else (let (fs', n') = mark_found hay ws fs nfound in (f # fs', n')))"
| "mark_found hay ws fs nfound = ([], nfound)"

text \<open>
  The size of a binary field: \<^verbatim>\<open>sec_size = get_uint32(p); sec_size += sizeof(guint32)\<close>
  in \<^verbatim>\<open>guint32\<close> arithmetic. \<^verbatim>\<open>get_uint32\<close> is declared in a header that is
  not among the sources; it is a parameter here, a function of the four bytes at
  \<^verbatim>\<open>p\<close>, which must lie in the record. \<^verbatim>\<open>SearchData\<close> takes its result as
  it is (lines 356 and 406), where the readers of the index apply \<^verbatim>\<open>g_ntohl\<close> to
  it (lines 516, 518, 792 and 794): it reads the bytes in the byte order of the host.
\<close>

definition binary_sec_size :: "(string \<Rightarrow> nat) \<Rightarrow> string \<Rightarrow> nat \<Rightarrow> nat option" where
  "binary_sec_size get_uint32 data off =
     (if off + 4 \<le> length data
      then Some ((get_uint32 (take 4 (drop off data)) + 4) mod 2 ^ 32)
      else None)"

text \<open>
  The loop over all types of \<^verbatim>\<open>sametypesequence\<close> but the last (lines 334 to 363).
  \<open>Some (Inl True)\<close> is \<^verbatim>\<open>return true\<close>; \<open>Some (Inr (off, WordFind, nfound))\<close>
  is the state after the loop. In a searched field, \<^verbatim>\<open>strstr\<close> reads the text at
  \<^verbatim>\<open>p\<close> unless every needle has been found, and \<^verbatim>\<open>strlen\<close> reads it unless
  the function has returned. \<^verbatim>\<open>p += sec_size\<close> reads nothing.
\<close>

fun search_head_fields ::
  "(string \<Rightarrow> nat) \<Rightarrow> string list \<Rightarrow> string \<Rightarrow> string \<Rightarrow> nat \<Rightarrow> bool list \<Rightarrow> int \<Rightarrow>
     (bool + nat \<times> bool list \<times> int) option" where
  "search_head_fields get_uint32 SearchWords [] data off WordFind nfound =
     Some (Inr (off, WordFind, nfound))"
| "search_head_fields get_uint32 SearchWords (t # ts) data off WordFind nfound =
     (if is_search_type t then
        (if list_all id WordFind \<and> nfound = int (length SearchWords) then Some (Inl True)
         else
           (case c_string_at data off of
              None \<Rightarrow> None
            | Some txt \<Rightarrow>
                (let (WordFind', nfound') = mark_found txt SearchWords WordFind nfound
                 in if nfound' = int (length SearchWords) then Some (Inl True)
                    else search_head_fields get_uint32 SearchWords ts data (off + (length txt + 1))
                           WordFind' nfound')))
      else if g_ascii_isupper t then
        (case binary_sec_size get_uint32 data off of
           None \<Rightarrow> None
         | Some sec_size \<Rightarrow>
             search_head_fields get_uint32 SearchWords ts data (off + sec_size) WordFind nfound)
      else
        (case c_string_at data off of
           None \<Rightarrow> None
         | Some txt \<Rightarrow>
             search_head_fields get_uint32 SearchWords ts data (off + (length txt + 1))
               WordFind nfound))"

text \<open>
  GLib's \<^verbatim>\<open>g_strstr_len(haystack, haystack_len, needle)\<close> for a length that is not
  negative, as a truth value: an empty needle is found and a needle longer than
  \<^verbatim>\<open>haystack_len\<close> is not, both without a read of the haystack; otherwise the
  needle is looked for in the first \<^verbatim>\<open>haystack_len\<close> bytes of the haystack, up to
  a NUL among them. The haystack is \<open>None\<close> when it lies outside of the record.
\<close>

definition g_strstr_len :: "string option \<Rightarrow> nat \<Rightarrow> string \<Rightarrow> bool option" where
  "g_strstr_len haystack haystack_len needle =
     (if needle = [] then Some True
      else if haystack_len < length needle then Some False
      else (case haystack of
              None \<Rightarrow> None
            | Some h \<Rightarrow> Some (strstr (c_str (take haystack_len h)) needle)))"

text \<open>The loop over the needles for the last field, with \<^verbatim>\<open>g_strstr_len\<close>.\<close>

fun mark_found_len ::
  "string option \<Rightarrow> nat \<Rightarrow> string list \<Rightarrow> bool list \<Rightarrow> int \<Rightarrow> (bool list \<times> int) option" where
  "mark_found_len hay len (w # ws) (f # fs) nfound =
     (if f then map_option (\<lambda>(fs', n'). (f # fs', n')) (mark_found_len hay len ws fs nfound)
      else
        (case g_strstr_len hay len (c_str w) of
           None \<Rightarrow> None
         | Some True \<Rightarrow>
             map_option (\<lambda>(fs', n'). (True # fs', n')) (mark_found_len hay len ws fs (nfound + 1))
         | Some False \<Rightarrow>
             map_option (\<lambda>(fs', n'). (f # fs', n')) (mark_found_len hay len ws fs nfound)))"
| "mark_found_len hay len ws fs nfound = Some ([], nfound)"

text \<open>
  The branch for a record with a \<^verbatim>\<open>sametypesequence\<close> (lines 332 to 382). The
  last field has the rest of the record:
  \<^verbatim>\<open>sec_size = idxitem_size - (p - origin_data)\<close>, a \<^verbatim>\<open>guint32\<close>, which wraps
  when \<^verbatim>\<open>p\<close> is past the record.
\<close>

definition search_with_sequence ::
  "(string \<Rightarrow> nat) \<Rightarrow> string \<Rightarrow> string list \<Rightarrow> string \<Rightarrow> bool option" where
  "search_with_sequence get_uint32 seq SearchWords data =
     (case search_head_fields get_uint32 SearchWords (butlast seq) data 0
             (replicate (length SearchWords) False) 0 of
        None \<Rightarrow> None
      | Some (Inl b) \<Rightarrow> Some b
      | Some (Inr (off, WordFind, nfound)) \<Rightarrow>
          if is_search_type (last seq)
          then (let sec_size = nat ((int (length data) - int off) mod 2 ^ 32)
                in case mark_found_len (if off \<le> length data then Some (drop off data) else None)
                          sec_size SearchWords WordFind nfound of
                     None \<Rightarrow> None
                   | Some (WordFind', nfound') \<Rightarrow> Some (nfound' = int (length SearchWords)))
          else Some False)"

text \<open>
  The branch for a record without a \<^verbatim>\<open>sametypesequence\<close> (lines 384 to 413), a
  loop under the guard \<^verbatim>\<open>guint32(p - origin_data) < idxitem_size\<close>:
  \<^verbatim>\<open>p\<close> points at the type byte of a field, and the source searches, measures and
  reads the size from there, the type byte included. A binary field whose size comes out
  as 0 leaves \<^verbatim>\<open>p\<close> where it is, and the loop does not end.
\<close>

function search_tagged_fields ::
  "(string \<Rightarrow> nat) \<Rightarrow> string list \<Rightarrow> string \<Rightarrow> nat \<Rightarrow> bool list \<Rightarrow> int \<Rightarrow> bool option" where
  "search_tagged_fields get_uint32 SearchWords data off WordFind nfound =
     (if off mod 2 ^ 32 < length data then
        (if off < length data then
           (if is_search_type (data ! off) then
              (if list_all id WordFind \<and> nfound = int (length SearchWords) then Some True
               else
                 (case c_string_at data off of
                    None \<Rightarrow> None
                  | Some txt \<Rightarrow>
                      (let (WordFind', nfound') = mark_found txt SearchWords WordFind nfound
                       in if nfound' = int (length SearchWords) then Some True
                          else search_tagged_fields get_uint32 SearchWords data
                                 (off + (length txt + 1)) WordFind' nfound')))
            else if g_ascii_isupper (data ! off) then
              (case binary_sec_size get_uint32 data off of
                 None \<Rightarrow> None
               | Some sec_size \<Rightarrow>
                   if sec_size = 0 then None
                   else search_tagged_fields get_uint32 SearchWords data (off + sec_size)
                          WordFind nfound)
            else
              (case c_string_at data off of
                 None \<Rightarrow> None
               | Some txt \<Rightarrow>
                   search_tagged_fields get_uint32 SearchWords data (off + (length txt + 1))
                     WordFind nfound))
         else None)
      else Some False)"
  by pat_completeness auto
termination
  by (relation "measure (\<lambda>(g, ws, data, off, fs, n). length data - off)") auto

declare search_tagged_fields.simps [simp del]

text \<open>
  \<^verbatim>\<open>DictBase::SearchData\<close>, on the bytes of the record in the .dict file. The first
  argument says whether the dictionary reads its plain file (\<^verbatim>\<open>dictfile\<close>) and not
  a compressed one, the second whether \<^verbatim>\<open>origin_data\<close> is null. For a plain file
  \<^verbatim>\<open>fread\<close> must deliver one item of \<^verbatim>\<open>idxitem_size\<close> bytes, which it does
  not when that size is 0.
\<close>

definition SearchData ::
  "bool \<Rightarrow> bool \<Rightarrow> (string \<Rightarrow> nat) \<Rightarrow> string \<Rightarrow> string list \<Rightarrow> string \<Rightarrow> bool option" where
  "SearchData plain origin_null get_uint32 seq SearchWords data =
     (if origin_null then None
      else if plain \<and> data = [] then None
      else if seq \<noteq> [] then search_with_sequence get_uint32 seq SearchWords data
      else search_tagged_fields get_uint32 SearchWords data 0
             (replicate (length SearchWords) False) 0)"

subsection \<open>The search over all dictionaries (lines 1519 to 1546)\<close>

text \<open>
  What the search needs of a dictionary: its \<^verbatim>\<open>sametypesequence\<close>, whether it
  reads a plain .dict file, and for each article the key, and the bytes of its record in
  the .dict file as \<^verbatim>\<open>get_key_and_data\<close> locates them.
\<close>

record DataDict =
  dd_sametypesequence :: string
  dd_dictfile :: bool
  dd_articles :: "(string \<times> string) list"

text \<open>
  The loop over the articles of one dictionary (lines 1529 to 1537). The buffer
  \<^verbatim>\<open>origin_data\<close> is shared by all dictionaries and grows with
  \<^verbatim>\<open>max_size\<close>; it is null as long as \<^verbatim>\<open>max_size\<close> is 0. The result is the
  keys of the records that \<^verbatim>\<open>SearchData\<close> accepts, in the order of the index, and
  \<^verbatim>\<open>max_size\<close> after the loop.
\<close>

fun search_articles ::
  "(string \<Rightarrow> nat) \<Rightarrow> string \<Rightarrow> bool \<Rightarrow> string list \<Rightarrow> nat \<Rightarrow> (string \<times> string) list \<Rightarrow>
     (string list \<times> nat) option" where
  "search_articles get_uint32 seq plain SearchWords max_size [] = Some ([], max_size)"
| "search_articles get_uint32 seq plain SearchWords max_size ((key, data) # rest) =
     (let max_size' = (if length data > max_size then length data else max_size)
      in case SearchData plain (max_size' = 0) get_uint32 seq SearchWords data of
           None \<Rightarrow> None
         | Some b \<Rightarrow>
             (case search_articles get_uint32 seq plain SearchWords max_size' rest of
                None \<Rightarrow> None
              | Some (keys, max_size'') \<Rightarrow> Some (if b then key # keys else keys, max_size'')))"

text \<open>
  The loop over the dictionaries. \<^verbatim>\<open>containSearchData\<close> is a member of
  \<^verbatim>\<open>Dict\<close> that the missing header defines; it is a parameter here. The result
  lists start empty.
\<close>

fun search_dicts ::
  "(DataDict \<Rightarrow> bool) \<Rightarrow> (string \<Rightarrow> nat) \<Rightarrow> string list \<Rightarrow> nat \<Rightarrow> DataDict list \<Rightarrow>
     string list list option" where
  "search_dicts containSearchData get_uint32 SearchWords max_size [] = Some []"
| "search_dicts containSearchData get_uint32 SearchWords max_size (lib # oLib) =
     (case (if \<not> containSearchData lib then Some ([], max_size)
            else search_articles get_uint32 (dd_sametypesequence lib) (dd_dictfile lib) SearchWords
                   max_size (dd_articles lib)) of
        None \<Rightarrow> None
      | Some (res, max_size') \<Rightarrow>
          (case search_dicts containSearchData get_uint32 SearchWords max_size' oLib of
             None \<Rightarrow> None
           | Some reslist \<Rightarrow> Some (res # reslist)))"

text \<open>
  \<^verbatim>\<open>Libs::LookupData\<close> (lines 1478 to 1547): the returned truth value and the
  result lists, one for each dictionary; \<open>None\<close> when a read left the query string
  or a record, or the search of a record delivered no result.
\<close>

definition LookupData ::
  "(DataDict \<Rightarrow> bool) \<Rightarrow> (string \<Rightarrow> nat) \<Rightarrow> DataDict list \<Rightarrow> string \<Rightarrow>
     (bool \<times> string list list) option" where
  "LookupData containSearchData get_uint32 oLib sWord =
     (case parse_needles sWord [] [] of
        None \<Rightarrow> None
      | Some SearchWords \<Rightarrow>
          if SearchWords = [] then Some (False, map (\<lambda>lib. []) oLib)
          else
            (case search_dicts containSearchData get_uint32 SearchWords 0 oLib of
               None \<Rightarrow> None
             | Some reslist \<Rightarrow> Some (list_ex (\<lambda>res. res \<noteq> []) reslist, reslist)))"

subsection \<open>Records with a schema, as the specification describes them\<close>

text \<open>
  The numbers of the file format are big-endian; on a host that is little-endian,
  \<^verbatim>\<open>get_uint32\<close> reads the four bytes the other way round.
\<close>

definition be_uint32 :: "string \<Rightarrow> nat" where
  "be_uint32 bs = foldl (\<lambda>a c. 256 * a + of_char c) 0 bs"

definition le_uint32 :: "string \<Rightarrow> nat" where
  "le_uint32 bs = foldr (\<lambda>c a. 256 * a + of_char c) bs 0"

text \<open>
  A field is text, or binary data with the four bytes of its length prefix. Under a
  \<^verbatim>\<open>sametypesequence\<close> every field but the last is stored with its end: a text
  with a NUL after it, binary data behind its length prefix, which is the length as a
  big-endian number. The last field is stored bare. A type in upper case is binary,
  every other type is text, and a text holds no NUL.

  \<open>wf_head\<close> says that of a field before the last, and for a binary field also that
  \<^verbatim>\<open>get_uint32\<close> reads the prefix as the number that it is. On a big-endian host
  that is so for every prefix, on a little-endian host for the prefixes that read the
  same in both orders.
\<close>

datatype field = Text string | Binary string string

fun encode_head :: "field \<Rightarrow> string" where
  "encode_head (Text s) = s @ [NUL]"
| "encode_head (Binary prefix bytes) = prefix @ bytes"

fun encode_last :: "field \<Rightarrow> string" where
  "encode_last (Text s) = s"
| "encode_last (Binary prefix bytes) = bytes"

fun wf_head :: "(string \<Rightarrow> nat) \<Rightarrow> char \<Rightarrow> field \<Rightarrow> bool" where
  "wf_head get_uint32 t (Text s) = (\<not> g_ascii_isupper t \<and> NUL \<notin> set s)"
| "wf_head get_uint32 t (Binary prefix bytes) =
     (g_ascii_isupper t \<and> length prefix = 4 \<and> be_uint32 prefix = length bytes \<and>
      get_uint32 prefix = be_uint32 prefix)"

fun wf_last :: "char \<Rightarrow> field \<Rightarrow> bool" where
  "wf_last t (Text s) = (\<not> g_ascii_isupper t \<and> NUL \<notin> set s)"
| "wf_last t (Binary prefix bytes) = (g_ascii_isupper t \<and> prefix = [])"

definition encode_record :: "field list \<Rightarrow> string" where
  "encode_record flds = concat (map encode_head (butlast flds)) @ encode_last (last flds)"

text \<open>
  A well-formed record has a field for every type of the \<^verbatim>\<open>sametypesequence\<close>;
  it is not empty, and its size is a 32-bit number.
\<close>

definition wf_record :: "(string \<Rightarrow> nat) \<Rightarrow> string \<Rightarrow> field list \<Rightarrow> bool" where
  "wf_record get_uint32 seq flds =
     (seq \<noteq> [] \<and> list_all2 (wf_head get_uint32) (butlast seq) (butlast flds) \<and>
      length flds = length seq \<and> wf_last (last seq) (last flds) \<and>
      encode_record flds \<noteq> [] \<and> length (encode_record flds) < 2 ^ 32)"

text \<open>The texts of the fields whose type is one of the seven searched types.\<close>

fun searched_texts :: "string \<Rightarrow> field list \<Rightarrow> string list" where
  "searched_texts (t # ts) (Text s # fs) =
     (if is_search_type t then s # searched_texts ts fs else searched_texts ts fs)"
| "searched_texts (t # ts) (Binary prefix bytes # fs) = searched_texts ts fs"
| "searched_texts ts fs = []"

text \<open>Every needle occurs in one of the searched texts of the record.\<close>

definition record_matches :: "string \<Rightarrow> string list \<Rightarrow> field list \<Rightarrow> bool" where
  "record_matches seq needles flds =
     list_all (\<lambda>w. list_ex (\<lambda>txt. strstr txt (c_str w)) (searched_texts seq flds)) needles"

text \<open>
  A dictionary with a schema, given by its articles as keys and fields, and the bytes it
  holds on disk.
\<close>

record SchemaDict =
  sd_sametypesequence :: string
  sd_dictfile :: bool
  sd_articles :: "(string \<times> field list) list"

definition wf_dict :: "(string \<Rightarrow> nat) \<Rightarrow> SchemaDict \<Rightarrow> bool" where
  "wf_dict get_uint32 d =
     list_all (\<lambda>(key, flds). wf_record get_uint32 (sd_sametypesequence d) flds) (sd_articles d)"

definition on_disk :: "SchemaDict \<Rightarrow> DataDict" where
  "on_disk d =
     \<lparr> dd_sametypesequence = sd_sametypesequence d,
       dd_dictfile = sd_dictfile d,
       dd_articles = map (\<lambda>(key, flds). (key, encode_record flds)) (sd_articles d) \<rparr>"

definition matching_keys :: "string list \<Rightarrow> SchemaDict \<Rightarrow> string list" where
  "matching_keys needles d =
     map fst (filter (\<lambda>(key, flds). record_matches (sd_sametypesequence d) needles flds)
                (sd_articles d))"

text \<open>
  For the proofs: \<^verbatim>\<open>WordFind\<close> after the needles have been looked for in some
  texts, and the number of its entries that are set.
\<close>

definition flags_after :: "string list \<Rightarrow> bool list \<Rightarrow> string list \<Rightarrow> bool list" where
  "flags_after ws flags texts =
     map (\<lambda>(w, f). f \<or> list_ex (\<lambda>txt. strstr txt (c_str w)) texts) (zip ws flags)"

definition ntrue :: "bool list \<Rightarrow> int" where
  "ntrue flags = int (length (filter id flags))"

text \<open>
  Three dictionaries for the examples, each with a record that holds
  \<^verbatim>\<open>hello\<close> and \<^verbatim>\<open>world\<close>. The first has the one text of the schema
  \<^verbatim>\<open>m\<close>. The second has a binary field before its text, with the length prefixes
  2 and 5, which only a big-endian host reads as such. The third has a binary
  field after its text, without a prefix, and reads a compressed file.
\<close>

definition first_dict :: SchemaDict where
  "first_dict =
     \<lparr> sd_sametypesequence = ''m'', sd_dictfile = True,
       sd_articles = [(''greeting'', [Text ''hello world'']), (''parting'', [Text ''goodbye world''])] \<rparr>"

definition second_dict :: SchemaDict where
  "second_dict =
     \<lparr> sd_sametypesequence = ''Wm'', sd_dictfile = True,
       sd_articles =
         [(''salute'', [Binary [CHR 0x00, CHR 0x00, CHR 0x00, CHR 0x02] ''hw'', Text ''hello, world'']),
          (''hw'', [Binary [CHR 0x00, CHR 0x00, CHR 0x00, CHR 0x05] ''hello'', Text ''nothing'']) ] \<rparr>"

definition third_dict :: SchemaDict where
  "third_dict =
     \<lparr> sd_sametypesequence = ''mW'', sd_dictfile = False,
       sd_articles =
         [(''sound'', [Text ''world, hello'', Binary [] ''RIFF'']),
          (''noise'', [Text ''nothing'', Binary [] ''hello world'']) ] \<rparr>"

section \<open>The fuzzy lookup (Libs::LookupWithFuzzy, lines 1346 to 1439)\<close>

text \<open>
  A UCS-4 string (\<^verbatim>\<open>gunichar *\<close>) is the list of its code points before the
  terminating 0. GLib's \<^verbatim>\<open>g_utf8_to_ucs4_fast\<close> and \<^verbatim>\<open>g_unichar_tolower\<close> are
  parameters of the model (\<open>ucs4\<close>, \<open>tolower\<close>); \<^verbatim>\<open>g_utf8_strlen\<close> of a string
  is the length of its UCS-4 form. \<^verbatim>\<open>unicode_strdown\<close> (lines 68 to 74) maps
  \<open>tolower\<close> over the code points.
\<close>

type_synonym gunichar = nat

text \<open>
  Modelled from the spec: \<^verbatim>\<open>iMaxFuzzyDistance\<close> is declared in the header
  \<^verbatim>\<open>stardict_lib.hpp\<close>, which is not among the sources; the specification gives
  its value as 3.
\<close>

definition iMaxFuzzyDistance :: int where
  "iMaxFuzzyDistance = 3"

text \<open>
  Modelled from the spec: \<^verbatim>\<open>EditDistance::CalEditDistance\<close> is defined in
  \<^verbatim>\<open>distance.cpp\<close>, which is not among the sources. The specification (section 4.4)
  describes it as the classic Levenshtein distance on UCS-4 code points, insertion,
  deletion and substitution at cost 1, computed row by row with a cap: when no cell of
  the current row is below \<^verbatim>\<open>max_distance\<close>, the result is \<^verbatim>\<open>max_distance\<close>.
  A row holds the distances of a prefix of the first string to all prefixes of the
  second.
\<close>

fun next_row_cells :: "gunichar \<Rightarrow> gunichar list \<Rightarrow> int list \<Rightarrow> int \<Rightarrow> int list" where
  "next_row_cells c (b # t) (diag # up # prev) left =
     (let cell = min (min (up + 1) (left + 1)) (diag + (if c = b then 0 else 1))
      in cell # next_row_cells c t (up # prev) cell)"
| "next_row_cells c t prev left = []"

definition next_row :: "gunichar \<Rightarrow> gunichar list \<Rightarrow> int list \<Rightarrow> int list" where
  "next_row c t prev = (hd prev + 1) # next_row_cells c t prev (hd prev + 1)"

fun edit_rows :: "gunichar list \<Rightarrow> gunichar list \<Rightarrow> int list \<Rightarrow> int \<Rightarrow> int" where
  "edit_rows [] t row limit = last row"
| "edit_rows (c # s) t row limit =
     (let row' = next_row c t row
      in if list_all (\<lambda>cell. \<not> cell < limit) row' then limit
         else edit_rows s t row' limit)"

definition CalEditDistance :: "gunichar list \<Rightarrow> gunichar list \<Rightarrow> int \<Rightarrow> int" where
  "CalEditDistance s t limit = edit_rows s t (map int [0..<length t + 1]) limit"

text \<open>
  The Levenshtein distance itself, by the recurrence of its matrix: \<open>lev_cell s t i j\<close>
  is the distance between the first \<open>i\<close> code points of \<open>s\<close> and the first
  \<open>j\<close> of \<open>t\<close>.
\<close>

fun lev_cell :: "gunichar list \<Rightarrow> gunichar list \<Rightarrow> nat \<Rightarrow> nat \<Rightarrow> nat" where
  "lev_cell s t 0 j = j"
| "lev_cell s t (Suc i) 0 = Suc i"
| "lev_cell s t (Suc i) (Suc j) =
     min (min (lev_cell s t i (Suc j) + 1) (lev_cell s t (Suc i) j + 1))
         (lev_cell s t i j + (if s ! i = t ! j then 0 else 1))"

definition levenshtein :: "gunichar list \<Rightarrow> gunichar list \<Rightarrow> nat" where
  "levenshtein s t = lev_cell s t (length s) (length t)"

text \<open>A slot of the result array; \<open>None\<close> is the null pointer.\<close>

record Fuzzystruct =
  pMatchWord :: "string option"
  iMatchWordDistance :: int

text \<open>
  What the lookup takes from outside: the two GLib functions and the distance function.
\<close>

record fuzzy_env =
  env_ucs4 :: "string \<Rightarrow> gunichar list"
  env_tolower :: "gunichar \<Rightarrow> gunichar"
  env_distance :: "gunichar list \<Rightarrow> gunichar list \<Rightarrow> int \<Rightarrow> int"

text \<open>
  Lines 1381 to 1387: a candidate whose length differs from the query's by
  \<^verbatim>\<open>iMaxDistance\<close> or more is skipped; a longer candidate is cut to the length of
  the query (\<^verbatim>\<open>ucs4_str1[ucs4_str2_len] = 0\<close>) before it is folded and compared.
\<close>

definition too_long_or_short :: "fuzzy_env \<Rightarrow> gunichar list \<Rightarrow> string \<Rightarrow> int \<Rightarrow> bool" where
  "too_long_or_short env ucs4_str2 sCheck iMaxDistance =
     (let iCheckWordLen = int (length (env_ucs4 env sCheck));
          ucs4_str2_len = int (length ucs4_str2)
      in iCheckWordLen - ucs4_str2_len \<ge> iMaxDistance \<or> ucs4_str2_len - iCheckWordLen \<ge> iMaxDistance)"

definition folded_candidate :: "fuzzy_env \<Rightarrow> gunichar list \<Rightarrow> string \<Rightarrow> gunichar list" where
  "folded_candidate env ucs4_str2 sCheck =
     map (env_tolower env)
       (if length (env_ucs4 env sCheck) > length ucs4_str2
        then take (length ucs4_str2) (env_ucs4 env sCheck)
        else env_ucs4 env sCheck)"

text \<open>
  The loop of lines 1396 to 1405 over the slots from index \<open>j\<close>: whether the
  candidate is in the list already, and \<^verbatim>\<open>iMaxDistanceAt\<close>.
\<close>

fun scan_slots :: "Fuzzystruct list \<Rightarrow> string \<Rightarrow> int \<Rightarrow> nat \<Rightarrow> nat \<Rightarrow> bool \<times> nat" where
  "scan_slots [] sCheck iMaxDistance j iMaxDistanceAt = (False, iMaxDistanceAt)"
| "scan_slots (slot # slots) sCheck iMaxDistance j iMaxDistanceAt =
     (if (case pMatchWord slot of None \<Rightarrow> False | Some w \<Rightarrow> strcmp w sCheck = 0)
      then (True, iMaxDistanceAt)
      else scan_slots slots sCheck iMaxDistance (Suc j)
             (if iMatchWordDistance slot = iMaxDistance then j else iMaxDistanceAt))"

text \<open>
  Lines 1412 to 1416: the new \<^verbatim>\<open>iMaxDistance\<close> is the largest distance in the slots,
  starting from \<^verbatim>\<open>iDistance\<close>.
\<close>

definition new_max_distance :: "int \<Rightarrow> Fuzzystruct list \<Rightarrow> int" where
  "new_max_distance iDistance slots =
     foldl (\<lambda>m slot. if iMatchWordDistance slot > m then iMatchWordDistance slot else m)
       iDistance slots"

text \<open>
  The body of the loop over the words (lines 1379 to 1418) for one candidate. The state
  is the slots, \<^verbatim>\<open>iMaxDistance\<close> and \<^verbatim>\<open>Found\<close>; \<open>None\<close> is a write outside
  of the slots.
\<close>

definition fuzzy_step ::
  "fuzzy_env \<Rightarrow> gunichar list \<Rightarrow> Fuzzystruct list \<times> int \<times> bool \<Rightarrow> string \<Rightarrow>
     (Fuzzystruct list \<times> int \<times> bool) option" where
  "fuzzy_step env ucs4_str2 state sCheck =
     (case state of (slots, iMaxDistance, Found) \<Rightarrow>
        if too_long_or_short env ucs4_str2 sCheck iMaxDistance then Some state
        else
          (let iDistance = env_distance env (folded_candidate env ucs4_str2 sCheck) ucs4_str2 iMaxDistance
           in if iDistance < iMaxDistance \<and> iDistance < int (length ucs4_str2) then
                (case scan_slots slots sCheck iMaxDistance 0 0 of
                   (True, iMaxDistanceAt) \<Rightarrow> Some (slots, iMaxDistance, True)
                 | (False, iMaxDistanceAt) \<Rightarrow>
                     if iMaxDistanceAt < length slots then
                       (let slots' = slots[iMaxDistanceAt :=
                                       \<lparr> pMatchWord = Some (c_str sCheck), iMatchWordDistance = iDistance \<rparr>]
                        in Some (slots', new_max_distance iDistance slots', True))
                     else None)
              else Some state))"

text \<open>The loops over the words of a dictionary and over the dictionaries.\<close>

fun fuzzy_words ::
  "fuzzy_env \<Rightarrow> gunichar list \<Rightarrow> Fuzzystruct list \<times> int \<times> bool \<Rightarrow> string list \<Rightarrow>
     (Fuzzystruct list \<times> int \<times> bool) option" where
  "fuzzy_words env ucs4_str2 state [] = Some state"
| "fuzzy_words env ucs4_str2 state (sCheck # words) =
     (case fuzzy_step env ucs4_str2 state sCheck of
        None \<Rightarrow> None
      | Some state' \<Rightarrow> fuzzy_words env ucs4_str2 state' words)"

fun fuzzy_libs ::
  "fuzzy_env \<Rightarrow> gunichar list \<Rightarrow> Fuzzystruct list \<times> int \<times> bool \<Rightarrow> string list list \<Rightarrow>
     (Fuzzystruct list \<times> int \<times> bool) option" where
  "fuzzy_libs env ucs4_str2 state [] = Some state"
| "fuzzy_libs env ucs4_str2 state (lib # oLib) =
     (case fuzzy_words env ucs4_str2 state lib of
        None \<Rightarrow> None
      | Some state' \<Rightarrow> fuzzy_libs env ucs4_str2 state' oLib)"

text \<open>
  The order of the final \<^verbatim>\<open>std::sort\<close> (lines 1425 to 1433): by distance, then by
  the comparator when both words are present. \<^verbatim>\<open>std::sort\<close> leaves the order of
  equivalent slots open; the model sorts by insertion.
\<close>

definition fuzzy_less :: "Fuzzystruct \<Rightarrow> Fuzzystruct \<Rightarrow> bool" where
  "fuzzy_less lh rh =
     (if iMatchWordDistance lh \<noteq> iMatchWordDistance rh
      then iMatchWordDistance lh < iMatchWordDistance rh
      else (case (pMatchWord lh, pMatchWord rh) of
              (Some l, Some r) \<Rightarrow> stardict_strcmp l r < 0
            | _ \<Rightarrow> False))"

fun insert_slot :: "Fuzzystruct \<Rightarrow> Fuzzystruct list \<Rightarrow> Fuzzystruct list" where
  "insert_slot x [] = [x]"
| "insert_slot x (y # ys) = (if fuzzy_less y x then y # insert_slot x ys else x # y # ys)"

definition sort_slots :: "Fuzzystruct list \<Rightarrow> Fuzzystruct list" where
  "sort_slots slots = foldr insert_slot slots []"

text \<open>
  Lines 1351 to 1359: the slots, \<^verbatim>\<open>iMaxDistance\<close> and \<^verbatim>\<open>Found\<close> before the
  loops.
\<close>

definition fuzzy_init :: "nat \<Rightarrow> Fuzzystruct list \<times> int \<times> bool" where
  "fuzzy_init reslist_size =
     (replicate reslist_size \<lparr> pMatchWord = None, iMatchWordDistance = iMaxFuzzyDistance \<rparr>,
      iMaxFuzzyDistance, False)"

text \<open>Lines 1367 and 1368: the query as UCS-4, folded to lower case.\<close>

definition folded_query :: "fuzzy_env \<Rightarrow> string \<Rightarrow> gunichar list" where
  "folded_query env sWord = map (env_tolower env) (env_ucs4 env sWord)"

text \<open>
  \<^verbatim>\<open>Libs::LookupWithFuzzy\<close>, over the words of the dictionaries in index order. The
  result is the returned \<^verbatim>\<open>Found\<close> and the entries written to \<^verbatim>\<open>reslist\<close>
  (none for the empty query, which returns at once).
\<close>

definition LookupWithFuzzy ::
  "fuzzy_env \<Rightarrow> string list list \<Rightarrow> string \<Rightarrow> nat \<Rightarrow> (bool \<times> string option list) option" where
  "LookupWithFuzzy env oLib sWord reslist_size =
     (if c_str sWord = [] then Some (False, [])
      else
        (let ucs4_str2 = folded_query env sWord
         in case fuzzy_libs env ucs4_str2 (fuzzy_init reslist_size) oLib of
              None \<Rightarrow> None
            | Some (slots, iMaxDistance, Found) \<Rightarrow>
                Some (Found, map pMatchWord (if Found then sort_slots slots else slots))))"

text \<open>
  The two GLib functions on ASCII strings, for the examples: a byte is its own code
  point, and only the letters \<^verbatim>\<open>A\<close> to \<^verbatim>\<open>Z\<close> have a lower-case form.
\<close>

definition ascii_env :: fuzzy_env where
  "ascii_env =
     \<lparr> env_ucs4 = (\<lambda>s. map of_char (c_str s)),
       env_tolower = (\<lambda>c. if 65 \<le> c \<and> c \<le> 90 then c + 32 else c),
       env_distance = CalEditDistance \<rparr>"

text \<open>
  For the proofs: row \<open>i\<close> of the Levenshtein matrix; the tests of lines 1381 to 1391
  that a candidate passes under a maximum distance; a word that the run over a list of
  words has examined and let pass under the maximum distance current at that moment; and
  the invariant of the loops, that every word in a slot satisfies a given property.
\<close>

definition lev_row :: "gunichar list \<Rightarrow> gunichar list \<Rightarrow> nat \<Rightarrow> int list" where
  "lev_row s t i = map (\<lambda>k. int (lev_cell s t i k)) [0..<Suc (length t)]"

definition passes_tests :: "fuzzy_env \<Rightarrow> gunichar list \<Rightarrow> string \<Rightarrow> int \<Rightarrow> bool" where
  "passes_tests env ucs4_str2 sCheck iMaxDistance =
     (\<not> too_long_or_short env ucs4_str2 sCheck iMaxDistance \<and>
      env_distance env (folded_candidate env ucs4_str2 sCheck) ucs4_str2 iMaxDistance < iMaxDistance \<and>
      env_distance env (folded_candidate env ucs4_str2 sCheck) ucs4_str2 iMaxDistance
        < int (length ucs4_str2))"

definition passed_in ::
  "fuzzy_env \<Rightarrow> gunichar list \<Rightarrow> nat \<Rightarrow> string list \<Rightarrow> string \<Rightarrow> bool" where
  "passed_in env ucs4_str2 reslist_size words w =
     (\<exists>before sCheck after slots iMaxDistance Found.
        words = before @ sCheck # after \<and> w = c_str sCheck \<and>
        fuzzy_words env ucs4_str2 (fuzzy_init reslist_size) before = Some (slots, iMaxDistance, Found) \<and>
        iMaxDistance \<le> iMaxFuzzyDistance \<and>
        passes_tests env ucs4_str2 sCheck iMaxDistance)"

definition slot_justified :: "(string \<Rightarrow> bool) \<Rightarrow> Fuzzystruct \<Rightarrow> bool" where
  "slot_justified P slot =
     (iMatchWordDistance slot \<le> iMaxFuzzyDistance \<and>
      (case pMatchWord slot of None \<Rightarrow> True | Some w \<Rightarrow> P w))"

definition fuzzy_inv :: "(string \<Rightarrow> bool) \<Rightarrow> Fuzzystruct list \<times> int \<times> bool \<Rightarrow> bool" where
  "fuzzy_inv P state =
     (case state of (slots, iMaxDistance, Found) \<Rightarrow>
        iMaxDistance \<le> iMaxFuzzyDistance \<and> (\<forall>slot\<in>set slots. slot_justified P slot))"

chapter \<open>Properties\<close>

section \<open>C strings\<close>

lemma c_str_Cons: "c_str (c # s) = (if c = NUL then [] else c # c_str s)"
  by (simp add: c_str_def)

lemma c_str_Nil: "c_str [] = []"
  by (simp add: c_str_def)

lemma c_str_idem: "c_str (c_str s) = c_str s"
  by (simp add: c_str_def takeWhile_idem)

lemma NUL_notin_c_str: "NUL \<notin> set (c_str s)"
  by (auto simp: c_str_def dest: set_takeWhileD)

lemma c_str_id: "NUL \<notin> set s \<Longrightarrow> c_str s = s"
  by (auto simp: c_str_def)

lemma bslash_not_NUL: "bslash \<noteq> NUL"
  by (simp add: bslash_def NUL_def)

section \<open>The comparator is a total order\<close>

lemma byte_eq_iff: "byte c = byte d \<longleftrightarrow> c = d"
  by (simp add: byte_def)

lemma byte_NUL: "byte NUL = 0"
  by (simp add: byte_def NUL_def)

lemma byte_ge0: "0 \<le> byte c"
  by (simp add: byte_def)

lemma byte_eq0_iff: "byte c = 0 \<longleftrightarrow> c = NUL"
  using byte_eq_iff[of c NUL] by (simp add: byte_NUL)

lemma byte_pos: "c \<noteq> NUL \<Longrightarrow> 0 < byte c"
  using byte_ge0[of c] byte_eq0_iff[of c] by linarith

lemma byte_lt256: "byte c < 256"
proof -
  have "(of_char c :: nat) = of_char c mod 256" by (simp only: of_char_mod_256)
  then have "(of_char c :: nat) < 256" by (metis mod_less_divisor zero_less_numeral)
  then show ?thesis by (simp add: byte_def)
qed

lemma byte_tolower_upper:
  assumes "g_ascii_isupper c"
  shows "byte (g_ascii_tolower c) = byte c + 32"
proof -
  from assms have r: "65 \<le> byte c" "byte c \<le> 90"
    by (simp_all add: g_ascii_isupper_def)
  have "nat (byte c - 65 + 97) = of_char c + 32"
    using r by (simp add: byte_def)
  moreover have "(of_char c + 32 :: nat) < 256"
    using r by (simp add: byte_def)
  ultimately have "(of_char (char_of (nat (byte c - 65 + 97))) :: nat) = of_char c + 32"
    by (simp add: of_char_of)
  then show ?thesis
    using assms by (simp add: g_ascii_tolower_def byte_def)
qed

lemma tolower_NUL_iff: "g_ascii_tolower c = NUL \<longleftrightarrow> c = NUL"
proof (cases "g_ascii_isupper c")
  case True
  then have "byte (g_ascii_tolower c) = byte c + 32"
    by (simp add: byte_tolower_upper)
  with True show ?thesis
    using byte_eq0_iff[of "g_ascii_tolower c"] byte_eq0_iff[of c]
    by (auto simp: g_ascii_isupper_def)
next
  case False
  then show ?thesis by (simp add: g_ascii_tolower_def)
qed

lemma strcmp_sign:
  "(strcmp a b < 0 \<longleftrightarrow> raw_key a < raw_key b) \<and> (strcmp a b = 0 \<longleftrightarrow> raw_key a = raw_key b)"
proof (induction a b rule: strcmp.induct)
  case 1
  show ?case by (simp add: raw_key_def c_str_def)
next
  case (2 y ys)
  show ?case using byte_ge0[of y] byte_eq0_iff[of y]
    by (auto simp: raw_key_def c_str_def)
next
  case (3 x xs)
  show ?case using byte_ge0[of x] byte_eq0_iff[of x]
    by (auto simp: raw_key_def c_str_def)
next
  case (4 x xs y ys)
  show ?case
  proof (cases "x = y")
    case True
    with 4 show ?thesis by (auto simp: raw_key_def c_str_def)
  next
    case False
    then have ne: "byte x \<noteq> byte y" by (simp add: byte_eq_iff)
    show ?thesis
      using False ne byte_ge0[of x] byte_ge0[of y] byte_eq0_iff[of x] byte_eq0_iff[of y]
      by (auto simp: raw_key_def c_str_def)
  qed
qed

lemma strcasecmp_sign:
  "(g_ascii_strcasecmp a b < 0 \<longleftrightarrow> folded_key a < folded_key b) \<and>
   (g_ascii_strcasecmp a b = 0 \<longleftrightarrow> folded_key a = folded_key b)"
proof (induction a b rule: g_ascii_strcasecmp.induct)
  case 1
  show ?case by (simp add: folded_key_def c_str_def)
next
  case (2 y ys)
  show ?case using byte_ge0[of y] byte_eq0_iff[of y]
    by (auto simp: folded_key_def c_str_def)
next
  case (3 x xs)
  show ?case using byte_ge0[of x] byte_eq0_iff[of x]
    by (auto simp: folded_key_def c_str_def)
next
  case (4 x xs y ys)
  show ?case
  proof (cases "x \<noteq> NUL \<and> y \<noteq> NUL")
    case True
    with 4 show ?thesis by (auto simp: folded_key_def c_str_def Let_def)
  next
    case False
    then show ?thesis
      using byte_ge0[of x] byte_ge0[of y] byte_eq0_iff[of x] byte_eq0_iff[of y]
        byte_pos[of x] byte_pos[of y]
      by (auto simp: folded_key_def c_str_def)
  qed
qed

lemma raw_key_eq_iff: "raw_key a = raw_key b \<longleftrightarrow> c_str a = c_str b"
proof -
  have "inj byte" by (rule injI) (simp add: byte_eq_iff)
  then show ?thesis by (auto simp: raw_key_def dest: inj_mapD[rotated])
qed

lemma raw_key_eq_folded: "raw_key a = raw_key b \<Longrightarrow> folded_key a = folded_key b"
  by (simp add: raw_key_eq_iff folded_key_def)

lemma stardict_strcmp_less: "stardict_strcmp a b < 0 \<longleftrightarrow> cmp_key a < cmp_key b"
  using strcmp_sign[of a b] strcasecmp_sign[of a b]
  by (auto simp: stardict_strcmp_def cmp_key_def Let_def less_prod_def)

lemma stardict_strcmp_eq: "stardict_strcmp a b = 0 \<longleftrightarrow> cmp_key a = cmp_key b"
  using strcmp_sign[of a b] strcasecmp_sign[of a b] raw_key_eq_folded[of a b]
  by (auto simp: stardict_strcmp_def cmp_key_def Let_def)

lemma stardict_strcmp_greater: "stardict_strcmp a b > 0 \<longleftrightarrow> cmp_key b < cmp_key a"
  using stardict_strcmp_less[of a b] stardict_strcmp_eq[of a b]
  by (metis linorder_neqE_linordered_idom not_less_iff_gr_or_eq)

lemma stardict_strcmp_le: "stardict_strcmp a b \<le> 0 \<longleftrightarrow> cmp_key a \<le> cmp_key b"
  using stardict_strcmp_greater[of a b] by (simp add: not_less[symmetric])

lemma cmp_key_eq_iff: "cmp_key a = cmp_key b \<longleftrightarrow> c_str a = c_str b"
  using raw_key_eq_folded[of a b] by (auto simp: cmp_key_def raw_key_eq_iff)

text \<open>
  Claim C3. \<open>stardict_strcmp a b\<close> is \<open>g_ascii_strcasecmp a b\<close> when that is
  not zero and \<open>strcmp a b\<close> otherwise, and it is a total order on C strings:
  reflexive, antisymmetric in sign, zero only on equal strings, and transitive (in its
  weak, strict and mixed forms).
\<close>

theorem stardict_strcmp_total_order:
  "(\<forall>a b. g_ascii_strcasecmp a b \<noteq> 0 \<longrightarrow> stardict_strcmp a b = g_ascii_strcasecmp a b) \<and>
   (\<forall>a b. g_ascii_strcasecmp a b = 0 \<longrightarrow> stardict_strcmp a b = strcmp a b) \<and>
   (\<forall>a. stardict_strcmp a a = 0) \<and>
   (\<forall>a b. sgn (stardict_strcmp a b) = - sgn (stardict_strcmp b a)) \<and>
   (\<forall>a b. stardict_strcmp a b = 0 \<longrightarrow> c_str a = c_str b) \<and>
   (\<forall>a b c. stardict_strcmp a b \<le> 0 \<and> stardict_strcmp b c \<le> 0 \<longrightarrow> stardict_strcmp a c \<le> 0) \<and>
   (\<forall>a b c. stardict_strcmp a b < 0 \<and> stardict_strcmp b c \<le> 0 \<longrightarrow> stardict_strcmp a c < 0) \<and>
   (\<forall>a b c. stardict_strcmp a b \<le> 0 \<and> stardict_strcmp b c < 0 \<longrightarrow> stardict_strcmp a c < 0)"
proof -
  have p1: "\<forall>a b. g_ascii_strcasecmp a b \<noteq> 0 \<longrightarrow> stardict_strcmp a b = g_ascii_strcasecmp a b"
    by (simp add: stardict_strcmp_def)
  have p2: "\<forall>a b. g_ascii_strcasecmp a b = 0 \<longrightarrow> stardict_strcmp a b = strcmp a b"
    by (simp add: stardict_strcmp_def)
  have p3: "\<forall>a. stardict_strcmp a a = 0"
    by (simp add: stardict_strcmp_eq)
  have p4: "\<forall>a b. sgn (stardict_strcmp a b) = - sgn (stardict_strcmp b a)"
  proof (intro allI)
    fix a b
    consider "cmp_key a < cmp_key b" | "cmp_key a = cmp_key b" | "cmp_key b < cmp_key a"
      by (rule linorder_cases)
    then show "sgn (stardict_strcmp a b) = - sgn (stardict_strcmp b a)"
    proof cases
      case 1
      then have "stardict_strcmp a b < 0" "stardict_strcmp b a > 0"
        by (simp_all add: stardict_strcmp_less stardict_strcmp_greater)
      then show ?thesis by simp
    next
      case 2
      then have "stardict_strcmp a b = 0" "stardict_strcmp b a = 0"
        by (simp_all add: stardict_strcmp_eq)
      then show ?thesis by simp
    next
      case 3
      then have "stardict_strcmp a b > 0" "stardict_strcmp b a < 0"
        by (simp_all add: stardict_strcmp_less stardict_strcmp_greater)
      then show ?thesis by simp
    qed
  qed
  have p5: "\<forall>a b. stardict_strcmp a b = 0 \<longrightarrow> c_str a = c_str b"
    by (simp add: stardict_strcmp_eq cmp_key_eq_iff)
  have p6: "\<forall>a b c. stardict_strcmp a b \<le> 0 \<and> stardict_strcmp b c \<le> 0 \<longrightarrow> stardict_strcmp a c \<le> 0"
    unfolding stardict_strcmp_le by (blast intro: order_trans)
  have p7: "\<forall>a b c. stardict_strcmp a b < 0 \<and> stardict_strcmp b c \<le> 0 \<longrightarrow> stardict_strcmp a c < 0"
    unfolding stardict_strcmp_le stardict_strcmp_less by (blast intro: less_le_trans)
  have p8: "\<forall>a b c. stardict_strcmp a b \<le> 0 \<and> stardict_strcmp b c < 0 \<longrightarrow> stardict_strcmp a c < 0"
    unfolding stardict_strcmp_le stardict_strcmp_less by (blast intro: le_less_trans)
  from p1 p2 p3 p4 p5 p6 p7 p8 show ?thesis by blast
qed

text \<open>The theorem at \<open>Apple\<close>, \<open>apple\<close> and \<open>banana\<close>.\<close>

theorem stardict_strcmp_total_order_witness:
  "g_ascii_strcasecmp ''Apple'' ''apple'' = 0 \<and>
   stardict_strcmp ''Apple'' ''apple'' = strcmp ''Apple'' ''apple'' \<and>
   stardict_strcmp ''Apple'' ''apple'' < 0 \<and>
   stardict_strcmp ''apple'' ''banana'' < 0 \<and>
   stardict_strcmp ''Apple'' ''banana'' < 0 \<and>
   sgn (stardict_strcmp ''banana'' ''Apple'') = 1"
proof -
  have e0: "g_ascii_strcasecmp ''Apple'' ''apple'' = 0"
    by code_simp
  have e1: "stardict_strcmp ''Apple'' ''apple'' < 0"
    by code_simp
  have e2: "stardict_strcmp ''apple'' ''banana'' < 0"
    by code_simp
  have t1: "stardict_strcmp ''Apple'' ''apple'' = strcmp ''Apple'' ''apple''"
    using stardict_strcmp_total_order e0 by blast
  have "stardict_strcmp ''Apple'' ''apple'' < 0 \<and> stardict_strcmp ''apple'' ''banana'' \<le> 0
      \<longrightarrow> stardict_strcmp ''Apple'' ''banana'' < 0"
    using stardict_strcmp_total_order by blast
  with e1 e2 have t2: "stardict_strcmp ''Apple'' ''banana'' < 0"
    by simp
  have "sgn (stardict_strcmp ''banana'' ''Apple'') = - sgn (stardict_strcmp ''Apple'' ''banana'')"
    using stardict_strcmp_total_order by blast
  with t2 have t3: "sgn (stardict_strcmp ''banana'' ''Apple'') = 1"
    by simp
  from e0 e1 e2 t1 t2 t3 show ?thesis by simp
qed

section \<open>The query classifier\<close>

lemma analyze_scan_spec:
  "analyze_scan p res regexp =
     (res @ spec_payload (c_str p), regexp \<or> spec_is_glob (c_str p))"
proof (induction p res regexp rule: analyze_scan.induct)
  case (1 res regexp)
  show ?case by (simp add: c_str_Nil spec_payload_def spec_is_glob_def)
next
  case (2 c p res regexp)
  show ?case
  proof (cases "c = NUL")
    case True
    then show ?thesis by (simp add: c_str_Cons spec_payload_def spec_is_glob_def)
  next
    case cn: False
    show ?thesis
    proof (cases "c = bslash")
      case True
      show ?thesis
      proof (cases p)
        case Nil
        with cn True show ?thesis
          by (simp add: c_str_Cons c_str_Nil spec_payload_def spec_is_glob_def)
      next
        case (Cons x p')
        show ?thesis
        proof (cases "x = NUL")
          case True
          with cn \<open>c = bslash\<close> Cons show ?thesis
            by (simp add: c_str_Cons spec_payload_def spec_is_glob_def)
        next
          case False
          with cn \<open>c = bslash\<close> Cons 2(1)[of x p'] show ?thesis
            by (simp add: c_str_Cons spec_payload_def spec_is_glob_def)
        qed
      qed
    next
      case False
      with cn 2(2) show ?thesis
        by (cases "c_str p") (auto simp: c_str_Cons spec_payload_def spec_is_glob_def)
    qed
  qed
qed

lemma analyze_query_scan:
  assumes "c_str q = c # rest" "c \<noteq> CHR ''/''" "c \<noteq> CHR ''|''"
  shows "analyze_query (Some q) =
           (if spec_is_glob (c_str q) then qtREGEXP else qtSIMPLE, spec_payload (c_str q))"
  using assms by (simp add: analyze_query_def analyze_scan_spec)

lemma spec_tokens_snoc_bslash:
  "s = [] \<or> last s \<noteq> bslash \<Longrightarrow> spec_tokens (s @ [bslash]) = spec_tokens s"
proof (induction s rule: spec_tokens.induct)
  case 1
  show ?case by simp
next
  case (2 c)
  then show ?case by simp
next
  case (3 c x xs)
  show ?case
  proof (cases "c = bslash")
    case True
    have "xs = [] \<or> last xs \<noteq> bslash"
      using 3(3) by (cases xs) auto
    with 3(1)[OF True] True show ?thesis by simp
  next
    case False
    have "x # xs = [] \<or> last (x # xs) \<noteq> bslash" using 3(3) by simp
    with 3(2)[OF False] False show ?thesis by simp
  qed
qed

lemma analyze_query_c_str: "analyze_query (Some q) = analyze_query (Some (c_str q))"
proof (cases "c_str q")
  case Nil
  then show ?thesis by (simp add: analyze_query_def c_str_Nil)
next
  case (Cons c rest)
  then have "c_str (c # rest) = c # rest"
    using c_str_idem[of q] by simp
  with Cons show ?thesis
    by (simp add: analyze_query_def analyze_scan_spec c_str_idem)
qed

lemma analyze_query_snoc_bslash:
  assumes l: "s = [] \<or> last s \<noteq> bslash"
    and h: "s = [] \<or> (hd s \<noteq> CHR ''/'' \<and> hd s \<noteq> CHR ''|'')"
  shows "analyze_query (Some (s @ [bslash])) =
           (if spec_is_glob (c_str s) then qtREGEXP else qtSIMPLE, spec_payload (c_str s))"
    and "analyze_query (Some (s @ [bslash])) = analyze_query (Some s)"
proof -
  have scan: "analyze_query (Some q) =
        (if spec_is_glob (c_str q) then qtREGEXP else qtSIMPLE, spec_payload (c_str q))"
    if "c_str q = [] \<or> (hd (c_str q) \<noteq> CHR ''/'' \<and> hd (c_str q) \<noteq> CHR ''|'')" for q
  proof (cases "c_str q")
    case Nil
    then show ?thesis by (simp add: analyze_query_def spec_is_glob_def spec_payload_def)
  next
    case (Cons c rest)
    with that show ?thesis by (simp add: analyze_query_scan)
  qed
  have hs: "c_str s = [] \<or> (hd (c_str s) \<noteq> CHR ''/'' \<and> hd (c_str s) \<noteq> CHR ''|'')"
    using h by (cases s) (auto simp: c_str_Cons c_str_Nil)
  show a: "analyze_query (Some (s @ [bslash])) =
           (if spec_is_glob (c_str s) then qtREGEXP else qtSIMPLE, spec_payload (c_str s))"
  proof (cases "NUL \<in> set s")
    case True
    then have "c_str (s @ [bslash]) = c_str s"
      by (auto simp: c_str_def takeWhile_append1)
    then have "analyze_query (Some (s @ [bslash])) = analyze_query (Some (c_str s))"
      using analyze_query_c_str[of "s @ [bslash]"] by simp
    also have "\<dots> = analyze_query (Some s)"
      using analyze_query_c_str[of s] by simp
    finally show ?thesis using scan[OF hs] by simp
  next
    case False
    then have cs: "c_str s = s" by (rule c_str_id)
    from False have cb: "c_str (s @ [bslash]) = s @ [bslash]"
      by (intro c_str_id) (simp add: bslash_not_NUL[symmetric])
    have hb: "c_str (s @ [bslash]) = [] \<or>
        (hd (c_str (s @ [bslash])) \<noteq> CHR ''/'' \<and> hd (c_str (s @ [bslash])) \<noteq> CHR ''|'')"
      using h unfolding cb by (cases s) (auto simp: bslash_def)
    have "spec_tokens (s @ [bslash]) = spec_tokens s"
      using l by (rule spec_tokens_snoc_bslash)
    then show ?thesis
      using scan[OF hb] by (simp add: cb cs spec_is_glob_def spec_payload_def)
  qed
  show "analyze_query (Some (s @ [bslash])) = analyze_query (Some s)"
    using a scan[OF hs] by simp
qed

text \<open>
  Claim C7, as the code has it. The null and the empty query are SIMPLE with an empty
  payload. A leading \<^verbatim>\<open>/\<close> gives FUZZY and a leading \<^verbatim>\<open>|\<close> gives DATA,
  and the payload is then the rest of the query, byte for byte: no escape prefix is
  removed on these two paths. Every other query is REGEXP when it has an unescaped
  \<^verbatim>\<open>*\<close> or \<^verbatim>\<open>?\<close> and SIMPLE otherwise, and its payload is the query with
  the escape prefixes removed (a backslash that ends the query is removed too).
\<close>

theorem analyze_query_classification:
  "analyze_query None = (qtSIMPLE, []) \<and>
   (\<forall>q. c_str q = [] \<longrightarrow> analyze_query (Some q) = (qtSIMPLE, [])) \<and>
   (\<forall>q. analyze_query (Some (CHR ''/'' # q)) = (qtFUZZY, c_str q)) \<and>
   (\<forall>q. analyze_query (Some (CHR ''|'' # q)) = (qtDATA, c_str q)) \<and>
   (\<forall>q c rest. c_str q = c # rest \<and> c \<noteq> CHR ''/'' \<and> c \<noteq> CHR ''|'' \<longrightarrow>
      analyze_query (Some q) =
        (if spec_is_glob (c_str q) then qtREGEXP else qtSIMPLE, spec_payload (c_str q)))"
proof -
  have a: "analyze_query None = (qtSIMPLE, [])"
    by (simp add: analyze_query_def)
  have b: "\<forall>q. c_str q = [] \<longrightarrow> analyze_query (Some q) = (qtSIMPLE, [])"
    by (simp add: analyze_query_def)
  have c: "\<forall>q. analyze_query (Some (CHR ''/'' # q)) = (qtFUZZY, c_str q)"
    by (simp add: analyze_query_def c_str_Cons NUL_def)
  have d: "\<forall>q. analyze_query (Some (CHR ''|'' # q)) = (qtDATA, c_str q)"
    by (simp add: analyze_query_def c_str_Cons NUL_def)
  have e: "\<forall>q c rest. c_str q = c # rest \<and> c \<noteq> CHR ''/'' \<and> c \<noteq> CHR ''|'' \<longrightarrow>
      analyze_query (Some q) =
        (if spec_is_glob (c_str q) then qtREGEXP else qtSIMPLE, spec_payload (c_str q))"
    using analyze_query_scan by blast
  from a b c d e show ?thesis by blast
qed

text \<open>The theorem at a glob query and at a query whose only star is escaped.\<close>

theorem analyze_query_classification_witness:
  "analyze_query (Some [CHR ''a'', bslash, CHR ''*'', CHR ''b'', CHR ''?'']) = (qtREGEXP, ''a*b?'') \<and>
   analyze_query (Some [CHR ''a'', bslash, CHR ''*'', CHR ''b'']) = (qtSIMPLE, ''a*b'')"
proof -
  let ?q1 = "[CHR ''a'', bslash, CHR ''*'', CHR ''b'', CHR ''?'']"
  let ?q2 = "[CHR ''a'', bslash, CHR ''*'', CHR ''b'']"
  have c1: "c_str ?q1 = CHR ''a'' # [bslash, CHR ''*'', CHR ''b'', CHR ''?''] \<and> CHR ''a'' \<noteq> CHR ''/'' \<and> CHR ''a'' \<noteq> CHR ''|''"
    by (simp add: c_str_def NUL_def bslash_def)
  have c2: "c_str ?q2 = CHR ''a'' # [bslash, CHR ''*'', CHR ''b''] \<and> CHR ''a'' \<noteq> CHR ''/'' \<and> CHR ''a'' \<noteq> CHR ''|''"
    by (simp add: c_str_def NUL_def bslash_def)
  have r1: "analyze_query (Some ?q1) =
      (if spec_is_glob (c_str ?q1) then qtREGEXP else qtSIMPLE, spec_payload (c_str ?q1))"
    using analyze_query_classification c1 by blast
  have r2: "analyze_query (Some ?q2) =
      (if spec_is_glob (c_str ?q2) then qtREGEXP else qtSIMPLE, spec_payload (c_str ?q2))"
    using analyze_query_classification c2 by blast
  have v1: "(if spec_is_glob (c_str ?q1) then qtREGEXP else qtSIMPLE, spec_payload (c_str ?q1)) = (qtREGEXP, ''a*b?'')"
    by (simp add: c_str_def NUL_def bslash_def spec_is_glob_def spec_payload_def)
  have v2: "(if spec_is_glob (c_str ?q2) then qtREGEXP else qtSIMPLE, spec_payload (c_str ?q2)) = (qtSIMPLE, ''a*b'')"
    by (simp add: c_str_def NUL_def bslash_def spec_is_glob_def spec_payload_def)
  from r1 r2 v1 v2 show ?thesis by simp
qed

text \<open>
  Claim C7 as stated fails on the FUZZY path: the payload of the query
  made of \<^verbatim>\<open>/a\<close>, a backslash and \<^verbatim>\<open>b\<close> keeps its backslash; it is
  neither the query nor its rest with the escape prefixes removed.
\<close>

theorem analyze_query_fuzzy_keeps_escapes:
  "analyze_query (Some [CHR ''/'', CHR ''a'', bslash, CHR ''b'']) = (qtFUZZY, [CHR ''a'', bslash, CHR ''b'']) \<and>
   spec_payload [CHR ''a'', bslash, CHR ''b''] = ''ab'' \<and>
   spec_payload [CHR ''/'', CHR ''a'', bslash, CHR ''b''] = ''/ab'' \<and>
   snd (analyze_query (Some [CHR ''/'', CHR ''a'', bslash, CHR ''b''])) \<noteq> spec_payload [CHR ''a'', bslash, CHR ''b''] \<and>
   snd (analyze_query (Some [CHR ''/'', CHR ''a'', bslash, CHR ''b''])) \<noteq> spec_payload [CHR ''/'', CHR ''a'', bslash, CHR ''b'']"
  by (simp add: analyze_query_def c_str_def NUL_def bslash_def spec_payload_def)

text \<open>
  Claim C10, as the code has it. For a query that does not start with
  \<^verbatim>\<open>/\<close> or \<^verbatim>\<open>|\<close>, one backslash appended to a string \<open>s\<close> that
  does not itself end in a backslash changes nothing: the result is the result for
  \<open>s\<close>, the payload is the unescaped \<open>s\<close>, and the query is REGEXP only when
  \<open>s\<close> has an unescaped \<^verbatim>\<open>*\<close> or \<^verbatim>\<open>?\<close>.
\<close>

theorem analyze_query_trailing_backslash:
  "\<forall>s. (s = [] \<or> last s \<noteq> bslash) \<and> (s = [] \<or> (hd s \<noteq> CHR ''/'' \<and> hd s \<noteq> CHR ''|'')) \<longrightarrow>
     analyze_query (Some (s @ [bslash])) = analyze_query (Some s) \<and>
     snd (analyze_query (Some (s @ [bslash]))) = spec_payload (c_str s) \<and>
     (fst (analyze_query (Some (s @ [bslash]))) = qtREGEXP \<longleftrightarrow> spec_is_glob (c_str s)) \<and>
     (fst (analyze_query (Some (s @ [bslash]))) = qtSIMPLE \<longleftrightarrow> \<not> spec_is_glob (c_str s))"
proof (intro allI impI)
  fix s
  assume a: "(s = [] \<or> last s \<noteq> bslash) \<and> (s = [] \<or> (hd s \<noteq> CHR ''/'' \<and> hd s \<noteq> CHR ''|''))"
  then have l: "s = [] \<or> last s \<noteq> bslash"
    and h: "s = [] \<or> (hd s \<noteq> CHR ''/'' \<and> hd s \<noteq> CHR ''|'')"
    by blast+
  show "analyze_query (Some (s @ [bslash])) = analyze_query (Some s) \<and>
     snd (analyze_query (Some (s @ [bslash]))) = spec_payload (c_str s) \<and>
     (fst (analyze_query (Some (s @ [bslash]))) = qtREGEXP \<longleftrightarrow> spec_is_glob (c_str s)) \<and>
     (fst (analyze_query (Some (s @ [bslash]))) = qtSIMPLE \<longleftrightarrow> \<not> spec_is_glob (c_str s))"
    using analyze_query_snoc_bslash[OF l h] by simp
qed

text \<open>
  The theorem at \<^verbatim>\<open>ab\<close> and \<^verbatim>\<open>a*\<close>, each followed by a backslash, and at
  the lone backslash.
\<close>

theorem analyze_query_trailing_backslash_witness:
  "analyze_query (Some (''ab'' @ [bslash])) = (qtSIMPLE, ''ab'') \<and>
   analyze_query (Some (''a*'' @ [bslash])) = (qtREGEXP, ''a*'') \<and>
   analyze_query (Some ([] @ [bslash])) = (qtSIMPLE, [])"
proof -
  have h1: "(''ab'' = [] \<or> last ''ab'' \<noteq> bslash) \<and> (''ab'' = [] \<or> (hd ''ab'' \<noteq> CHR ''/'' \<and> hd ''ab'' \<noteq> CHR ''|''))"
    by (simp add: bslash_def)
  have h2: "(''a*'' = [] \<or> last ''a*'' \<noteq> bslash) \<and> (''a*'' = [] \<or> (hd ''a*'' \<noteq> CHR ''/'' \<and> hd ''a*'' \<noteq> CHR ''|''))"
    by (simp add: bslash_def)
  have h3: "(([]::string) = [] \<or> last ([]::string) \<noteq> bslash) \<and> (([]::string) = [] \<or> (hd ([]::string) \<noteq> CHR ''/'' \<and> hd ([]::string) \<noteq> CHR ''|''))"
    by simp
  have r1: "analyze_query (Some (''ab'' @ [bslash])) = analyze_query (Some ''ab'')"
    using analyze_query_trailing_backslash h1 by blast
  have r2: "analyze_query (Some (''a*'' @ [bslash])) = analyze_query (Some ''a*'')"
    using analyze_query_trailing_backslash h2 by blast
  have r3: "analyze_query (Some ([] @ [bslash])) = analyze_query (Some [])"
    using analyze_query_trailing_backslash h3 by blast
  have v1: "analyze_query (Some ''ab'') = (qtSIMPLE, ''ab'')"
    by (simp add: analyze_query_def c_str_def NUL_def bslash_def)
  have v2: "analyze_query (Some ''a*'') = (qtREGEXP, ''a*'')"
    by (simp add: analyze_query_def c_str_def NUL_def bslash_def)
  have v3: "analyze_query (Some []) = (qtSIMPLE, [])"
    by (simp add: analyze_query_def c_str_def)
  from r1 r2 r3 v1 v2 v3 show ?thesis by simp
qed

text \<open>
  Claim C10 as stated fails for a query with a leading \<^verbatim>\<open>/\<close> or
  \<^verbatim>\<open>|\<close>: the payload of \<^verbatim>\<open>/a\<close> followed by a backslash still ends in
  the backslash.
\<close>

theorem analyze_query_fuzzy_keeps_trailing_backslash:
  "analyze_query (Some (''/a'' @ [bslash])) = (qtFUZZY, ''a'' @ [bslash]) \<and>
   analyze_query (Some ''/a'') = (qtFUZZY, ''a'') \<and>
   last (snd (analyze_query (Some (''/a'' @ [bslash])))) = bslash \<and>
   analyze_query (Some (''|a'' @ [bslash])) = (qtDATA, ''a'' @ [bslash])"
  by (simp add: analyze_query_def c_str_def NUL_def bslash_def)

section \<open>The first suffix rule of LookupSimilarWord reads inside the word\<close>

lemma length_c_buffer: "int (length (c_buffer w)) = strlen w + 1"
  by (simp add: c_buffer_def strlen_def)

lemma buf_read_c_buffer:
  "buf_read (c_buffer w) i =
     (if 0 \<le> i \<and> i < strlen w then Some (c_str w ! nat i)
      else if i = strlen w then Some NUL else None)"
  by (auto simp: buf_read_def c_buffer_def strlen_def nth_append)

lemma c_str_nth_not_NUL: "0 \<le> i \<Longrightarrow> i < strlen w \<Longrightarrow> c_str w ! nat i \<noteq> NUL"
proof -
  assume "0 \<le> i" "i < strlen w"
  then have "nat i < length (c_str w)" by (simp add: strlen_def)
  then have "c_str w ! nat i \<in> set (c_str w)" by (rule nth_mem)
  with NUL_notin_c_str[of w] show ?thesis by auto
qed

lemma strncmp_at_in_bounds:
  "0 \<le> off \<Longrightarrow> off \<le> strlen w \<Longrightarrow> \<exists>r. strncmp_at (c_buffer w) off pat n = Some r"
proof (induction n arbitrary: off pat)
  case 0
  show ?case by simp
next
  case (Suc n)
  show ?case
  proof (cases "off = strlen w")
    case True
    then show ?thesis by (simp add: buf_read_c_buffer Let_def)
  next
    case False
    with Suc.prems have lt: "off < strlen w" by simp
    then have "0 \<le> off + 1" "off + 1 \<le> strlen w" using Suc.prems by simp_all
    from Suc.IH[OF this] obtain r where "strncmp_at (c_buffer w) (off + 1) (tl pat) n = Some r"
      by blast
    with lt Suc.prems show ?thesis
      by (simp add: buf_read_c_buffer Let_def)
  qed
qed

lemma cut_s_or_ed_test_defined: "\<exists>r. cut_s_or_ed_test bFound sWord = Some r"
proof (cases "\<not> bFound \<and> strlen sWord > 1")
  case False
  then show ?thesis by (auto simp: cut_s_or_ed_test_def Let_def)
next
  case True
  then have len: "strlen sWord > 1" by simp
  have l: "buf_read (c_buffer sWord) (strlen sWord - 1) = Some (c_str sWord ! nat (strlen sWord - 1))"
    using len by (simp add: buf_read_c_buffer)
  obtain r1 where r1: "strncmp_at (c_buffer sWord) (strlen sWord - 2) ''ED'' 2 = Some r1"
    using strncmp_at_in_bounds[of "strlen sWord - 2" sWord "''ED''" 2] len by auto
  obtain r2 where r2: "strncmp_at (c_buffer sWord) (strlen sWord - 2) ''ed'' 2 = Some r2"
    using strncmp_at_in_bounds[of "strlen sWord - 2" sWord "''ed''" 2] len by auto
  show ?thesis
    using True l r1 r2 by (auto simp: cut_s_or_ed_test_def Let_def)
qed

text \<open>
  Claim C8, as the code has it. The test of lines 1071 to 1073 never reads outside the
  word's memory: under the guard \<^verbatim>\<open>iWordLen > 1\<close> the indices
  \<^verbatim>\<open>iWordLen - 2\<close> and \<^verbatim>\<open>iWordLen - 1\<close> are indices of bytes of the word
  (for a word of two letters they are 0 and 1), and \<^verbatim>\<open>strncmp\<close> stops at the
  terminating NUL at the latest. Without the guard the rule's body is not reached.
\<close>

theorem cut_s_or_ed_reads_in_bounds:
  "(\<exists>r. cut_s_or_ed_test bFound sWord = Some r) \<and>
   (if 1 < strlen sWord
    then buf_read (c_buffer sWord) (strlen sWord - 2) = Some (c_str sWord ! nat (strlen sWord - 2)) \<and>
         buf_read (c_buffer sWord) (strlen sWord - 1) = Some (c_str sWord ! nat (strlen sWord - 1))
    else cut_s_or_ed_test bFound sWord = Some (False, False))"
proof -
  have "buf_read (c_buffer sWord) (strlen sWord - 2) = Some (c_str sWord ! nat (strlen sWord - 2)) \<and>
        buf_read (c_buffer sWord) (strlen sWord - 1) = Some (c_str sWord ! nat (strlen sWord - 1))"
    if "1 < strlen sWord"
    using that by (simp add: buf_read_c_buffer)
  moreover have "cut_s_or_ed_test bFound sWord = Some (False, False)" if "\<not> 1 < strlen sWord"
    using that by (simp add: cut_s_or_ed_test_def Let_def)
  ultimately show ?thesis
    using cut_s_or_ed_test_defined[of bFound sWord] by simp
qed

text \<open>The theorem at the two-letter word \<^verbatim>\<open>ed\<close>.\<close>

theorem cut_s_or_ed_reads_in_bounds_witness:
  "cut_s_or_ed_test False ''ed'' = Some (False, True) \<and>
   buf_read (c_buffer ''ed'') (strlen ''ed'' - 2) = Some (CHR ''e'') \<and>
   buf_read (c_buffer ''ed'') (strlen ''ed'' - 1) = Some (CHR ''d'')"
proof -
  have l: "strlen ''ed'' = 2" "c_str ''ed'' = ''ed''"
    by (simp_all add: strlen_def c_str_def NUL_def)
  have "\<exists>r. cut_s_or_ed_test False ''ed'' = Some r"
    using cut_s_or_ed_reads_in_bounds[of False "''ed''"] by blast
  moreover have "cut_s_or_ed_test False ''ed'' = Some (False, True)"
    by (simp add: cut_s_or_ed_test_def c_buffer_def strlen_def c_str_def NUL_def buf_read_def
        numeral_2_eq_2 byte_def)
  moreover have "buf_read (c_buffer ''ed'') (strlen ''ed'' - 2) = Some (c_str ''ed'' ! nat (strlen ''ed'' - 2)) \<and>
      buf_read (c_buffer ''ed'') (strlen ''ed'' - 1) = Some (c_str ''ed'' ! nat (strlen ''ed'' - 1))"
    using cut_s_or_ed_reads_in_bounds[of False "''ed''"] l by simp
  ultimately show ?thesis using l by simp
qed

text \<open>
  Claim C8 as stated fails: no pure-ASCII word of length 2 makes the test read outside
  the word.
\<close>

theorem cut_s_or_ed_two_letter_words_safe:
  "\<not> (\<exists>sWord. strlen sWord = 2 \<and> bIsPureEnglish sWord \<and>
         (buf_read (c_buffer sWord) (strlen sWord - 2) = None \<or> cut_s_or_ed_test False sWord = None))"
proof
  assume "\<exists>sWord. strlen sWord = 2 \<and> bIsPureEnglish sWord \<and>
         (buf_read (c_buffer sWord) (strlen sWord - 2) = None \<or> cut_s_or_ed_test False sWord = None)"
  then obtain sWord where len: "strlen sWord = 2"
    and bad: "buf_read (c_buffer sWord) (strlen sWord - 2) = None \<or> cut_s_or_ed_test False sWord = None"
    by blast
  from len have "buf_read (c_buffer sWord) (strlen sWord - 2) \<noteq> None"
    by (simp add: buf_read_c_buffer)
  moreover have "cut_s_or_ed_test False sWord \<noteq> None"
    using cut_s_or_ed_test_defined[of False sWord] by auto
  ultimately show False using bad by auto
qed

text \<open>
  The model does see a read before the word: this is what the test would do on a
  one-letter word if the guard were missing. The examples after it run the test.
\<close>

lemma strncmp_at_before_word: "strncmp_at (c_buffer ''a'') (strlen ''a'' - 2) ''ED'' 2 = None"
  by (simp add: c_buffer_def strlen_def c_str_def NUL_def buf_read_def numeral_2_eq_2)

lemma cut_s_or_ed_test_examples:
  "cut_s_or_ed_test False ''ed'' = Some (False, True)"
  "cut_s_or_ed_test False ''ED'' = Some (True, True)"
  "cut_s_or_ed_test False ''as'' = Some (False, True)"
  "cut_s_or_ed_test False ''to'' = Some (False, False)"
  "cut_s_or_ed_test False ''walked'' = Some (False, True)"
  by (simp_all add: cut_s_or_ed_test_def c_buffer_def strlen_def c_str_def NUL_def buf_read_def
      numeral_2_eq_2 byte_def)

section \<open>The .ifo parser\<close>

lemma parse_ifo_body_skip_space:
  assumes "list_all g_ascii_isspace ws"
  shows "parse_ifo_body (ws @ rest) m = parse_ifo_body rest m"
proof -
  have d: "dropWhile g_ascii_isspace (ws @ rest) = dropWhile g_ascii_isspace rest"
    using assms by (induction ws) auto
  show ?thesis
  proof (cases "rest = []")
    case True
    then have "dropWhile g_ascii_isspace (ws @ rest) = []" using d by simp
    with True show ?thesis
      by (subst parse_ifo_body.simps, subst (2) parse_ifo_body.simps) (simp add: Let_def)
  next
    case False
    then show ?thesis
      by (subst parse_ifo_body.simps, subst (2) parse_ifo_body.simps) (simp add: d Let_def)
  qed
qed

lemma dropWhile_append_hd:
  "ys \<noteq> [] \<Longrightarrow> \<not> P (hd ys) \<Longrightarrow> list_all P xs \<Longrightarrow> dropWhile P (xs @ ys) = ys"
  by (induction xs) (auto simp: neq_Nil_conv)

lemma takeWhile_append_hd:
  "ys \<noteq> [] \<Longrightarrow> \<not> P (hd ys) \<Longrightarrow> list_all P xs \<Longrightarrow> takeWhile P (xs @ ys) = xs"
  by (induction xs) (auto simp: neq_Nil_conv)

lemma parse_ifo_body_line:
  assumes wf: "wf_ifo_line l"
  shows "parse_ifo_body (render_line l @ rest) m =
           parse_ifo_body rest (map_insert (line_key l) (line_value l) m)"
proof -
  define k where "k = line_key l"
  define b where "b = line_blanks l"
  define v where "v = line_value l"
  define e where "e = line_eol l"
  define erest where "erest = e @ rest"
  define vrest where "vrest = v @ erest"
  define after_eq where "after_eq = b @ vrest"
  define p where "p = k @ (CHR ''='' # after_eq)"
  have p_eq: "render_line l @ rest = p"
    by (simp add: render_line_def p_def after_eq_def vrest_def erest_def k_def b_def v_def e_def)
  have k1: "list_all (\<lambda>ch. ch \<noteq> CHR ''='') k"
    using wf by (auto simp: wf_ifo_line_def wf_ifo_fields_def list_all_iff k_def)
  have pne: "p \<noteq> []" by (simp add: p_def)
  have hd_p: "\<not> g_ascii_isspace (hd p)"
    using wf by (cases k) (auto simp: wf_ifo_line_def wf_ifo_fields_def p_def k_def g_ascii_isspace_def byte_def)
  have key_it: "dropWhile g_ascii_isspace p = p"
    using pne hd_p by (cases p) auto
  have eq_it: "dropWhile (\<lambda>ch. ch \<noteq> CHR ''='') p = CHR ''='' # after_eq"
    unfolding p_def using k1 by (intro dropWhile_append_hd) auto
  have key: "takeWhile (\<lambda>ch. ch \<noteq> CHR ''='') p = k"
    unfolding p_def using k1 by (intro takeWhile_append_hd) auto
  have b1: "list_all g_ascii_isspace b"
    using wf by (auto simp: wf_ifo_line_def wf_ifo_fields_def list_all_iff b_def)
  have vne: "vrest \<noteq> []" "\<not> g_ascii_isspace (hd vrest)"
    using wf by (auto simp: wf_ifo_line_def wf_ifo_fields_def vrest_def v_def)
  have val_it: "dropWhile g_ascii_isspace after_eq = vrest"
    unfolding after_eq_def using vne b1 by (intro dropWhile_append_hd)
  have v1: "list_all (\<lambda>ch. \<not> is_line_end ch) v"
    using wf by (auto simp: wf_ifo_line_def wf_ifo_fields_def v_def)
  have ene: "erest \<noteq> []" "\<not> \<not> is_line_end (hd erest)"
    using wf by (auto simp: wf_ifo_line_def erest_def e_def)
  have line_end_it: "dropWhile (\<lambda>ch. \<not> is_line_end ch) vrest = erest"
    unfolding vrest_def using ene v1 by (intro dropWhile_append_hd)
  have val: "takeWhile (\<lambda>ch. \<not> is_line_end ch) vrest = v"
    unfolding vrest_def using ene v1 by (intro takeWhile_append_hd)
  have ene': "e \<noteq> []" using wf by (simp add: wf_ifo_line_def e_def)
  have tl_e: "tl erest = tl e @ rest"
    using ene' by (simp add: erest_def)
  have sp_e: "list_all g_ascii_isspace (tl e)"
    using wf ene' by (cases e) (auto simp: wf_ifo_line_def e_def)
  have "parse_ifo_body p m = parse_ifo_body (tl erest) (map_insert k v m)"
    by (subst parse_ifo_body.simps)
      (simp add: pne key_it eq_it key val_it line_end_it val ene(1) vne(1) Let_def)
  also have "\<dots> = parse_ifo_body rest (map_insert k v m)"
    unfolding tl_e by (rule parse_ifo_body_skip_space[OF sp_e])
  finally show ?thesis
    unfolding p_eq k_def v_def .
qed

lemma parse_ifo_body_line_eof:
  assumes wf: "wf_ifo_fields l" and eof: "line_eol l = []"
  shows "parse_ifo_body (render_line l) m = Inr (map_insert (line_key l) (line_value l) m)"
proof -
  define k where "k = line_key l"
  define b where "b = line_blanks l"
  define v where "v = line_value l"
  define after_eq where "after_eq = b @ v"
  define p where "p = k @ (CHR ''='' # after_eq)"
  have p_eq: "render_line l = p"
    by (simp add: render_line_def p_def after_eq_def k_def b_def v_def eof)
  have k1: "list_all (\<lambda>ch. ch \<noteq> CHR ''='') k"
    using wf by (auto simp: wf_ifo_fields_def list_all_iff k_def)
  have pne: "p \<noteq> []" by (simp add: p_def)
  have hd_p: "\<not> g_ascii_isspace (hd p)"
    using wf by (cases k) (auto simp: wf_ifo_fields_def p_def k_def g_ascii_isspace_def byte_def)
  have key_it: "dropWhile g_ascii_isspace p = p"
    using pne hd_p by (cases p) auto
  have eq_it: "dropWhile (\<lambda>ch. ch \<noteq> CHR ''='') p = CHR ''='' # after_eq"
    unfolding p_def using k1 by (intro dropWhile_append_hd) auto
  have key: "takeWhile (\<lambda>ch. ch \<noteq> CHR ''='') p = k"
    unfolding p_def using k1 by (intro takeWhile_append_hd) auto
  have b1: "list_all g_ascii_isspace b"
    using wf by (auto simp: wf_ifo_fields_def list_all_iff b_def)
  have vne: "v \<noteq> []" "\<not> g_ascii_isspace (hd v)"
    using wf by (auto simp: wf_ifo_fields_def v_def)
  have val_it: "dropWhile g_ascii_isspace after_eq = v"
    unfolding after_eq_def using vne b1 by (intro dropWhile_append_hd)
  have v1: "\<forall>ch\<in>set v. \<not> is_line_end ch"
    using wf by (auto simp: wf_ifo_fields_def list_all_iff v_def)
  have line_end_it: "dropWhile (\<lambda>ch. \<not> is_line_end ch) v = []"
    using v1 by simp
  have val: "takeWhile (\<lambda>ch. \<not> is_line_end ch) v = v"
    using v1 by simp
  have "parse_ifo_body p m = Inr (map_insert k v m)"
    by (subst parse_ifo_body.simps)
      (simp add: pne key_it eq_it key val_it line_end_it val vne(1) Let_def)
  then show ?thesis
    unfolding p_eq k_def v_def .
qed

lemma wf_ifo_line_body: "list_all wf_ifo_line ls \<Longrightarrow> wf_ifo_body ls"
  by (induction ls rule: wf_ifo_body.induct) (simp_all add: wf_ifo_last_line_def wf_ifo_line_def)

lemma parse_ifo_body_body:
  "wf_ifo_body ls \<Longrightarrow> parse_ifo_body (render_lines ls) m = Inr (insert_lines m ls)"
proof (induction ls arbitrary: m rule: wf_ifo_body.induct)
  case 1
  show ?case by (simp add: render_lines_def insert_lines_def parse_ifo_body.simps[of "[]"])
next
  case (2 l)
  then have f: "wf_ifo_fields l" and e: "line_eol l = [] \<or> wf_ifo_line l"
    by (simp_all add: wf_ifo_last_line_def)
  from e show ?case
  proof
    assume "line_eol l = []"
    from parse_ifo_body_line_eof[OF f this, of m] show ?thesis
      by (simp add: render_lines_def insert_lines_def)
  next
    assume "wf_ifo_line l"
    from parse_ifo_body_line[OF this, of "[]" m] show ?thesis
      by (simp add: render_lines_def insert_lines_def parse_ifo_body.simps[of "[]"])
  qed
next
  case (3 l l' ls)
  then have wf: "wf_ifo_line l" and rest: "wf_ifo_body (l' # ls)" by simp_all
  have "parse_ifo_body (render_lines (l # l' # ls)) m =
        parse_ifo_body (render_line l @ render_lines (l' # ls)) m"
    by (simp add: render_lines_def)
  also have "\<dots> = parse_ifo_body (render_lines (l' # ls)) (map_insert (line_key l) (line_value l) m)"
    by (rule parse_ifo_body_line[OF wf])
  also have "\<dots> = Inr (insert_lines (map_insert (line_key l) (line_value l) m) (l' # ls))"
    by (rule "3.IH"[OF rest])
  finally show ?case by (simp add: insert_lines_def)
qed

lemma parse_ifo_body_lines:
  "list_all wf_ifo_line ls \<Longrightarrow>
   parse_ifo_body (render_lines ls @ rest) m = parse_ifo_body rest (insert_lines m ls)"
proof (induction ls arbitrary: m)
  case Nil
  show ?case by (simp add: render_lines_def insert_lines_def)
next
  case (Cons l ls)
  then have wf: "wf_ifo_line l" and wfs: "list_all wf_ifo_line ls" by simp_all
  have "parse_ifo_body (render_lines (l # ls) @ rest) m =
        parse_ifo_body (render_line l @ (render_lines ls @ rest)) m"
    by (simp add: render_lines_def)
  also have "\<dots> = parse_ifo_body (render_lines ls @ rest) (map_insert (line_key l) (line_value l) m)"
    by (rule parse_ifo_body_line[OF wf])
  also have "\<dots> = parse_ifo_body rest (insert_lines (map_insert (line_key l) (line_value l) m) ls)"
    by (rule Cons.IH[OF wfs])
  finally show ?case by (simp add: insert_lines_def)
qed

lemma parse_ifo_body_no_equals:
  assumes "junk \<noteq> []" "\<not> g_ascii_isspace (hd junk)" "CHR ''='' \<notin> set junk"
  shows "parse_ifo_body junk m = Inl NoEquals"
proof -
  have key_it: "dropWhile g_ascii_isspace junk = junk"
    using assms by (cases junk) auto
  have "dropWhile (\<lambda>ch. ch \<noteq> CHR ''='') junk = []"
    using assms(3) by auto
  with assms(1) key_it show ?thesis
    by (subst parse_ifo_body.simps) (simp add: Let_def)
qed


lemma map_of_map_insert:
  "map_of (map_insert k v m) x = (case map_of m x of Some y \<Rightarrow> Some y | None \<Rightarrow> if x = k then Some v else None)"
  by (auto simp: map_insert_def map_of_append map_add_def split: option.splits)

lemma map_of_insert_lines:
  "map_of (insert_lines m ls) x =
     (case map_of m x of
        Some y \<Rightarrow> Some y
      | None \<Rightarrow> map_of (map (\<lambda>l. (line_key l, line_value l)) ls) x)"
proof (induction ls arbitrary: m)
  case Nil
  show ?case by (simp add: insert_lines_def split: option.splits)
next
  case (Cons l ls)
  have "insert_lines m (l # ls) = insert_lines (map_insert (line_key l) (line_value l) m) ls"
    by (simp add: insert_lines_def)
  then show ?case
    by (simp add: Cons.IH map_of_map_insert split: option.splits)
qed

lemma magic_prefix:
  "\<not> g_str_has_prefix ((if t then TREEDICT_MAGIC_DATA else DICT_MAGIC_DATA) @ body) utf8_bom"
  "g_str_has_prefix ((if t then TREEDICT_MAGIC_DATA else DICT_MAGIC_DATA) @ body)
     (if t then TREEDICT_MAGIC_DATA else DICT_MAGIC_DATA)"
  by (simp_all add: g_str_has_prefix_def utf8_bom_def TREEDICT_MAGIC_DATA_def DICT_MAGIC_DATA_def)

lemma load_from_ifo_file_body:
  "load_from_ifo_file (Some ((if t then TREEDICT_MAGIC_DATA else DICT_MAGIC_DATA) @ body)) name t =
     (case parse_ifo_body body [] of Inl e \<Rightarrow> Inl e | Inr m \<Rightarrow> dict_info_of_map name t m)"
  using magic_prefix[of t body]
  by (cases t; cases "parse_ifo_body body []") (simp_all add: load_from_ifo_file_def Let_def)

lemma parse_ifo_body_space_only:
  "list_all g_ascii_isspace ws \<Longrightarrow> parse_ifo_body ws m = Inr m"
  using parse_ifo_body_skip_space[of ws "[]" m]
  by (simp add: parse_ifo_body.simps[of "[]"])

lemma parse_well_formed:
  assumes "list_all wf_ifo_line ls" "list_all g_ascii_isspace ws"
  shows "parse_ifo_body (ws @ render_lines ls @ rest) m = parse_ifo_body rest (insert_lines m ls)"
  using parse_ifo_body_skip_space[OF assms(2)] parse_ifo_body_lines[OF assms(1)] by simp

text \<open>
  Claim C6, as the code has it. On a body of well-formed lines (after any white space),
  each with a value that is not empty, the parser reads each key up to its
  \<^verbatim>\<open>=\<close>, skips the blanks after the \<^verbatim>\<open>=\<close>, and stores as the value the
  bytes from the first byte that is not white space up to the next CR or LF, or up to
  the end of the file in the last line, trailing white space included; the first line
  of a key wins. \<^verbatim>\<open>load_from_ifo_file\<close> then looks the keys up in that map. When
  lines that end in a line end are followed by bytes that start a key and hold no
  \<^verbatim>\<open>=\<close> up to the end of the file, the parser reports the missing
  \<^verbatim>\<open>=\<close> and \<^verbatim>\<open>load_from_ifo_file\<close> returns false.
\<close>

theorem ifo_body_parsing:
  "(\<forall>ls ws m. wf_ifo_body ls \<and> list_all g_ascii_isspace ws \<longrightarrow>
      parse_ifo_body (ws @ render_lines ls) m = Inr (insert_lines m ls)) \<and>
   (\<forall>ls x. map_of (insert_lines [] ls) x = map_of (map (\<lambda>l. (line_key l, line_value l)) ls) x) \<and>
   (\<forall>ls ws name t. wf_ifo_body ls \<and> list_all g_ascii_isspace ws \<longrightarrow>
      load_from_ifo_file
        (Some ((if t then TREEDICT_MAGIC_DATA else DICT_MAGIC_DATA) @ ws @ render_lines ls)) name t =
      dict_info_of_map name t (insert_lines [] ls)) \<and>
   (\<forall>ls ws m junk. list_all wf_ifo_line ls \<and> list_all g_ascii_isspace ws \<and>
        junk \<noteq> [] \<and> \<not> g_ascii_isspace (hd junk) \<and> CHR ''='' \<notin> set junk \<longrightarrow>
      parse_ifo_body (ws @ render_lines ls @ junk) m = Inl NoEquals) \<and>
   (\<forall>ls ws name t junk. list_all wf_ifo_line ls \<and> list_all g_ascii_isspace ws \<and>
        junk \<noteq> [] \<and> \<not> g_ascii_isspace (hd junk) \<and> CHR ''='' \<notin> set junk \<longrightarrow>
      load_from_ifo_file
        (Some ((if t then TREEDICT_MAGIC_DATA else DICT_MAGIC_DATA) @ ws @ render_lines ls @ junk)) name t =
      Inl NoEquals)"
proof -
  have a: "parse_ifo_body (ws @ render_lines ls) m = Inr (insert_lines m ls)"
    if "wf_ifo_body ls" "list_all g_ascii_isspace ws" for ls ws m
    using parse_ifo_body_skip_space[OF that(2), of "render_lines ls" m]
      parse_ifo_body_body[OF that(1), of m] by simp
  have b: "map_of (insert_lines [] ls) x = map_of (map (\<lambda>l. (line_key l, line_value l)) ls) x" for ls x
    by (simp add: map_of_insert_lines)
  have c: "load_from_ifo_file
        (Some ((if t then TREEDICT_MAGIC_DATA else DICT_MAGIC_DATA) @ ws @ render_lines ls)) name t =
      dict_info_of_map name t (insert_lines [] ls)"
    if "wf_ifo_body ls" "list_all g_ascii_isspace ws" for ls ws name t
    by (simp only: load_from_ifo_file_body a[OF that] sum.case)
  have d: "parse_ifo_body (ws @ render_lines ls @ junk) m = Inl NoEquals"
    if "list_all wf_ifo_line ls" "list_all g_ascii_isspace ws"
      "junk \<noteq> []" "\<not> g_ascii_isspace (hd junk)" "CHR ''='' \<notin> set junk" for ls ws m junk
    using parse_well_formed[OF that(1,2), of junk m] parse_ifo_body_no_equals[OF that(3,4,5)]
    by simp
  have e: "load_from_ifo_file
        (Some ((if t then TREEDICT_MAGIC_DATA else DICT_MAGIC_DATA) @ ws @ render_lines ls @ junk)) name t =
      Inl NoEquals"
    if "list_all wf_ifo_line ls" "list_all g_ascii_isspace ws"
      "junk \<noteq> []" "\<not> g_ascii_isspace (hd junk)" "CHR ''='' \<notin> set junk" for ls ws name t junk
    by (simp only: load_from_ifo_file_body d[OF that] sum.case)
  from a b c d e show ?thesis by blast
qed

text \<open>
  The theorem at a body of two lines: with a line end after the second line, with the
  value of the second line at the end of the file, and with trailing junk.
\<close>

theorem ifo_body_parsing_witness:
  "parse_ifo_body ([LF] @ ''wordcount= 12 '' @ [CR, LF] @ ''bookname=x y'' @ [LF]) [] =
     Inr [(''wordcount'', ''12 ''), (''bookname'', ''x y'')] \<and>
   parse_ifo_body ([LF] @ ''wordcount= 12 '' @ [CR, LF] @ ''bookname=x y '') [] =
     Inr [(''wordcount'', ''12 ''), (''bookname'', ''x y '')] \<and>
   parse_ifo_body ([LF] @ ''wordcount= 12 '' @ [CR, LF] @ ''bookname=x y'' @ [LF] @ ''junk'') [] =
     Inl NoEquals"
proof -
  have wf: "list_all wf_ifo_line ex_lines \<and> list_all g_ascii_isspace [LF]"
    by (simp add: ex_lines_def wf_ifo_line_def wf_ifo_fields_def g_ascii_isspace_def is_line_end_def
        LF_def CR_def byte_def)
  have wfb: "wf_ifo_body ex_lines \<and> list_all g_ascii_isspace [LF]"
    using wf wf_ifo_line_body by blast
  have wfe: "wf_ifo_body ex_lines_eof \<and> list_all g_ascii_isspace [LF]"
    by (simp add: ex_lines_eof_def wf_ifo_line_def wf_ifo_last_line_def wf_ifo_fields_def
        g_ascii_isspace_def is_line_end_def LF_def CR_def byte_def)
  have j: "''junk'' \<noteq> [] \<and> \<not> g_ascii_isspace (hd ''junk'') \<and> CHR ''='' \<notin> set ''junk''"
    by (simp add: g_ascii_isspace_def byte_def)
  have r: "render_lines ex_lines = ''wordcount= 12 '' @ [CR, LF] @ ''bookname=x y'' @ [LF]"
    by (simp add: ex_lines_def render_lines_def render_line_def)
  have re: "render_lines ex_lines_eof = ''wordcount= 12 '' @ [CR, LF] @ ''bookname=x y ''"
    by (simp add: ex_lines_eof_def render_lines_def render_line_def)
  have i: "insert_lines [] ex_lines = [(''wordcount'', ''12 ''), (''bookname'', ''x y'')]"
    by (simp add: ex_lines_def insert_lines_def map_insert_def)
  have ie: "insert_lines [] ex_lines_eof = [(''wordcount'', ''12 ''), (''bookname'', ''x y '')]"
    by (simp add: ex_lines_eof_def insert_lines_def map_insert_def)
  note p1 = ifo_body_parsing[THEN conjunct1, rule_format, of ex_lines "[LF]" "[]"]
  note p1e = ifo_body_parsing[THEN conjunct1, rule_format, of ex_lines_eof "[LF]" "[]"]
  note p4 = ifo_body_parsing[THEN conjunct2, THEN conjunct2, THEN conjunct2, THEN conjunct1,
      rule_format, of ex_lines "[LF]" "''junk''" "[]"]
  have "parse_ifo_body ([LF] @ render_lines ex_lines) [] = Inr (insert_lines [] ex_lines)"
    using p1 wfb by simp
  moreover have "parse_ifo_body ([LF] @ render_lines ex_lines_eof) [] = Inr (insert_lines [] ex_lines_eof)"
    using p1e wfe by simp
  moreover have "parse_ifo_body ([LF] @ render_lines ex_lines @ ''junk'') [] = Inl NoEquals"
    using p4 wf j by simp
  ultimately show ?thesis
    unfolding r re i ie by simp
qed

text \<open>
  Claim C6 as stated fails. The value is not the bytes from after the \<^verbatim>\<open>=\<close>:
  white space after the \<^verbatim>\<open>=\<close> is skipped, line ends included, so that an
  empty value takes the next line as its value. And a run of bytes without
  \<^verbatim>\<open>=\<close> is no parse error when a later line has one: the run becomes part of
  that line's key, and a file with such a run loads.
\<close>

theorem ifo_value_not_verbatim:
  "parse_ifo_body ''k= v'' [] = Inr [(''k'', ''v'')] \<and>
   parse_ifo_body (''a='' @ [LF] @ ''b=c'') [] = Inr [(''a'', ''b=c'')] \<and>
   parse_ifo_body (''a=b'' @ [LF] @ ''junk'' @ [LF] @ ''c=d'') [] =
     Inr [(''a'', ''b''), (''junk'' @ [LF] @ ''c'', ''d'')] \<and>
   load_from_ifo_file
     (Some (DICT_MAGIC_DATA @ [LF] @ ''wordcount=1'' @ [LF] @ ''idxfilesize=2'' @ [LF] @
            ''bookname=x'' @ [LF] @ ''junk'' @ [LF] @ ''author=me'' @ [LF]))
     ''d.ifo'' False =
     Inr \<lparr> ifo_file_name = ''d.ifo'', wordcount = 1, syn_wordcount = 0, bookname = ''x'',
           author = [], email = [], website = [], date = [], description = [],
           index_file_size = 2, sametypesequence = [] \<rparr>"
  by code_simp

section \<open>A dictionary without words is not loaded\<close>

text \<open>
  Claim C9. When the .ifo file parses and its \<^verbatim>\<open>wordcount\<close> is 0,
  \<^verbatim>\<open>load_ifofile\<close> and \<^verbatim>\<open>Dict::load\<close> return false, whatever the companion
  files are, and \<^verbatim>\<open>load_dict\<close> leaves the library as it was.
\<close>

theorem load_rejects_zero_wordcount:
  "\<forall>fs url info oLib.
     load_from_ifo_file (fs_contents fs url) url False = Inr info \<and> wordcount info = 0 \<longrightarrow>
       load_ifofile fs url = None \<and>
       Dict_load fs url = Inl ReturnedFalse \<and>
       load_dict fs oLib url = Inr oLib"
  by (simp add: load_ifofile_def Dict_load_def load_dict_def)

text \<open>
  The theorem at an .ifo file with \<^verbatim>\<open>wordcount=0\<close> in a file system where every
  companion file exists and opens. The same file with \<^verbatim>\<open>wordcount=3\<close> loads.
\<close>

lemma ex_ifo_parses:
  "load_from_ifo_file (Some (ex_ifo 0)) ''ex.ifo'' False =
     Inr \<lparr> ifo_file_name = ''ex.ifo'', wordcount = 0, syn_wordcount = 0, bookname = ''Example'',
           author = [], email = [], website = [], date = [], description = [],
           index_file_size = 40, sametypesequence = [] \<rparr>"
  by code_simp

lemma ex_ifo_loads:
  "Dict_load (complete_file_system (ex_ifo 3)) ''ex.ifo'' =
     Inr \<lparr> dict_info =
             \<lparr> ifo_file_name = ''ex.ifo'', wordcount = 3, syn_wordcount = 0, bookname = ''Example'',
               author = [], email = [], website = [], date = [], description = [],
               index_file_size = 40, sametypesequence = [] \<rparr>,
           dict_data = DictDzData, dict_index = WordListIndexKind, dict_index_name = ''ex.idx.gz'' \<rparr>"
  by code_simp

theorem load_rejects_zero_wordcount_witness:
  "Dict_load (complete_file_system (ex_ifo 0)) ''ex.ifo'' = Inl ReturnedFalse \<and>
   load_dict (complete_file_system (ex_ifo 0)) [] ''ex.ifo'' = Inr []"
proof -
  let ?fs = "complete_file_system (ex_ifo 0)"
  let ?info = "\<lparr> ifo_file_name = ''ex.ifo'', wordcount = 0, syn_wordcount = 0, bookname = ''Example'',
           author = [], email = [], website = [], date = [], description = [],
           index_file_size = 40, sametypesequence = [] \<rparr>"
  have "load_from_ifo_file (fs_contents ?fs ''ex.ifo'') ''ex.ifo'' False = Inr ?info \<and> wordcount ?info = 0"
    using ex_ifo_parses by (simp add: complete_file_system_def)
  then show ?thesis
    using load_rejects_zero_wordcount by blast
qed

section \<open>The index lookups find what a sorted index holds\<close>

lemma c_div2_between: "a \<le> b \<Longrightarrow> a \<le> c_div2 (a + b) \<and> c_div2 (a + b) \<le> b"
  by (auto simp: c_div2_def)

lemma search_loop_correct:
  "(\<And>i. lo \<le> i \<Longrightarrow> i \<le> hi \<Longrightarrow> g i = Some (k i)) \<Longrightarrow>
   (\<And>i j. lo \<le> i \<Longrightarrow> i \<le> j \<Longrightarrow> j \<le> hi \<Longrightarrow> cmp_key (k i) \<le> cmp_key (k j)) \<Longrightarrow>
   lo \<le> iFrom \<Longrightarrow> iTo \<le> hi \<Longrightarrow> iFrom \<le> iTo + 1 \<Longrightarrow>
     (\<And>j. lo \<le> j \<Longrightarrow> j < iFrom \<Longrightarrow> cmp_key (k j) < cmp_key str) \<Longrightarrow>
     (\<And>j. iTo < j \<Longrightarrow> j \<le> hi \<Longrightarrow> cmp_key str < cmp_key (k j)) \<Longrightarrow>
     \<exists>b t f to. search_loop g str iFrom iTo t0 = Some (b, t, f, to) \<and>
       (b \<longrightarrow> lo \<le> t \<and> t \<le> hi \<and> cmp_key (k t) = cmp_key str) \<and>
       (\<not> b \<longrightarrow> f = to + 1 \<and> lo \<le> f \<and> to \<le> hi \<and>
          (\<forall>j. lo \<le> j \<and> j < f \<longrightarrow> cmp_key (k j) < cmp_key str) \<and>
          (\<forall>j. to < j \<and> j \<le> hi \<longrightarrow> cmp_key str < cmp_key (k j)))"
proof (induction g str iFrom iTo t0 rule: search_loop.induct)
  case (1 key str iFrom iTo iThisIndex)
  note g1 = "1.prems"(1) and mono1 = "1.prems"(2)
  note lo = "1.prems"(3) and hi = "1.prems"(4) and adj = "1.prems"(5)
  note below = "1.prems"(6) and above = "1.prems"(7)
  show ?case
  proof (cases "iFrom \<le> iTo")
    case False
    with adj have "iFrom = iTo + 1" by simp
    with False lo hi below above show ?thesis
      by (subst search_loop.simps) auto
  next
    case True
    define mid where "mid = c_div2 (iFrom + iTo)"
    have mid: "iFrom \<le> mid" "mid \<le> iTo"
      using c_div2_between[OF True] by (simp_all add: mid_def)
    have km: "key mid = Some (k mid)"
      using g1[of mid] mid lo hi by simp
    consider (gt) "stardict_strcmp str (k mid) > 0" | (lt) "stardict_strcmp str (k mid) < 0"
      | (eq) "stardict_strcmp str (k mid) = 0"
      by linarith
    then show ?thesis
    proof cases
      case gt
      then have lt_str: "cmp_key (k mid) < cmp_key str"
        by (simp add: stardict_strcmp_greater)
      have below': "cmp_key (k j) < cmp_key str" if "lo \<le> j" "j < mid + 1" for j
      proof -
        have "cmp_key (k j) \<le> cmp_key (k mid)"
          using mono1[of j mid] that mid hi by simp
        from this lt_str show ?thesis by (rule le_less_trans)
      qed
      have "\<exists>b t f to. search_loop key str (mid + 1) iTo mid = Some (b, t, f, to) \<and>
       (b \<longrightarrow> lo \<le> t \<and> t \<le> hi \<and> cmp_key (k t) = cmp_key str) \<and>
       (\<not> b \<longrightarrow> f = to + 1 \<and> lo \<le> f \<and> to \<le> hi \<and>
          (\<forall>j. lo \<le> j \<and> j < f \<longrightarrow> cmp_key (k j) < cmp_key str) \<and>
          (\<forall>j. to < j \<and> j \<le> hi \<longrightarrow> cmp_key str < cmp_key (k j)))"
        using "1.IH"(1)[OF True mid_def km refl _ g1 mono1 _ hi _ below' above] gt mid lo
        by simp
      moreover have "search_loop key str iFrom iTo iThisIndex = search_loop key str (mid + 1) iTo mid"
        using True km gt by (subst search_loop.simps) (simp add: mid_def[symmetric] Let_def)
      ultimately show ?thesis by simp
    next
      case lt
      then have str_lt: "cmp_key str < cmp_key (k mid)"
        by (simp add: stardict_strcmp_less)
      have above': "cmp_key str < cmp_key (k j)" if "mid - 1 < j" "j \<le> hi" for j
      proof -
        have "cmp_key (k mid) \<le> cmp_key (k j)"
          using mono1[of mid j] that mid lo by simp
        from str_lt this show ?thesis by (rule less_le_trans)
      qed
      have ngt: "\<not> stardict_strcmp str (k mid) > 0" using lt by simp
      have "\<exists>b t f to. search_loop key str iFrom (mid - 1) mid = Some (b, t, f, to) \<and>
       (b \<longrightarrow> lo \<le> t \<and> t \<le> hi \<and> cmp_key (k t) = cmp_key str) \<and>
       (\<not> b \<longrightarrow> f = to + 1 \<and> lo \<le> f \<and> to \<le> hi \<and>
          (\<forall>j. lo \<le> j \<and> j < f \<longrightarrow> cmp_key (k j) < cmp_key str) \<and>
          (\<forall>j. to < j \<and> j \<le> hi \<longrightarrow> cmp_key str < cmp_key (k j)))"
        using "1.IH"(2)[OF True mid_def km refl ngt lt g1 mono1 lo _ _ below above'] mid hi
        by simp
      moreover have "search_loop key str iFrom iTo iThisIndex = search_loop key str iFrom (mid - 1) mid"
        using True km lt by (subst search_loop.simps) (simp add: mid_def[symmetric] Let_def)
      ultimately show ?thesis by simp
    next
      case eq
      then have "cmp_key (k mid) = cmp_key str"
        by (simp add: stardict_strcmp_eq)
      moreover have "search_loop key str iFrom iTo iThisIndex = Some (True, mid, iFrom, iTo)"
        using True km eq by (subst search_loop.simps) (simp add: mid_def[symmetric] Let_def)
      ultimately show ?thesis using mid lo hi by auto
    qed
  qed
qed


lemma walk_behind_correct:
  "(\<And>i. 0 \<le> i \<Longrightarrow> i \<le> hi \<Longrightarrow> g i = Some (k i)) \<Longrightarrow> h \<le> hi \<Longrightarrow>
   walk_behind g str h idxs =
     Some (idxs \<union> {j. 0 \<le> j \<and> j \<le> h \<and> (\<forall>i. j \<le> i \<and> i \<le> h \<longrightarrow> stardict_strcmp str (k i) = 0)})"
proof (induction g str h idxs rule: walk_behind.induct)
  case (1 key str iHeadIndex idxs)
  note g1 = "1.prems"(1) and hi = "1.prems"(2)
  show ?case
  proof (cases "iHeadIndex \<ge> 0")
    case False
    then show ?thesis
      by (subst walk_behind.simps) auto
  next
    case True
    have kh: "key iHeadIndex = Some (k iHeadIndex)"
      using g1[of iHeadIndex] True hi by simp
    show ?thesis
    proof (cases "stardict_strcmp str (k iHeadIndex) = 0")
      case False
      have e: "{j. 0 \<le> j \<and> j \<le> iHeadIndex \<and>
              (\<forall>i. j \<le> i \<and> i \<le> iHeadIndex \<longrightarrow> stardict_strcmp str (k i) = 0)} = {}"
        using False by auto
      have w: "walk_behind key str iHeadIndex idxs = Some idxs"
        using True kh False by (subst walk_behind.simps) simp
      show ?thesis by (simp only: w e Un_empty_right)
    next
      case eq: True
      have step: "walk_behind key str iHeadIndex idxs =
          walk_behind key str (iHeadIndex - 1) (insert iHeadIndex idxs)"
        using True kh eq by (subst walk_behind.simps) simp
      have ih: "walk_behind key str (iHeadIndex - 1) (insert iHeadIndex idxs) =
          Some (insert iHeadIndex idxs \<union> {j. 0 \<le> j \<and> j \<le> iHeadIndex - 1 \<and>
            (\<forall>i. j \<le> i \<and> i \<le> iHeadIndex - 1 \<longrightarrow> stardict_strcmp str (k i) = 0)})"
        using "1.IH"[OF True kh eq g1] hi by simp
      have sets: "insert iHeadIndex idxs \<union> {j. 0 \<le> j \<and> j \<le> iHeadIndex - 1 \<and>
            (\<forall>i. j \<le> i \<and> i \<le> iHeadIndex - 1 \<longrightarrow> stardict_strcmp str (k i) = 0)} =
          idxs \<union> {j. 0 \<le> j \<and> j \<le> iHeadIndex \<and>
            (\<forall>i. j \<le> i \<and> i \<le> iHeadIndex \<longrightarrow> stardict_strcmp str (k i) = 0)}"
        (is "?L = ?R")
      proof (rule set_eqI)
        fix x
        show "x \<in> ?L \<longleftrightarrow> x \<in> ?R"
        proof (cases "x = iHeadIndex")
          case True
          with \<open>iHeadIndex \<ge> 0\<close> eq show ?thesis by auto
        next
          case False
          have "(\<forall>i. x \<le> i \<and> i \<le> iHeadIndex - 1 \<longrightarrow> stardict_strcmp str (k i) = 0) \<longleftrightarrow>
                (\<forall>i. x \<le> i \<and> i \<le> iHeadIndex \<longrightarrow> stardict_strcmp str (k i) = 0)"
            using eq by (metis add.commute add_le_cancel_left diff_add_cancel zle_diff1_eq linorder_not_less order_le_less)
          with False show ?thesis by auto
        qed
      qed
      show ?thesis unfolding step ih sets ..
    qed
  qed
qed


lemma walk_ahead_correct:
  "(\<And>i. 0 \<le> i \<Longrightarrow> i \<le> hi \<Longrightarrow> g i = Some (k i)) \<Longrightarrow> iLast \<le> hi \<Longrightarrow> 0 \<le> t \<Longrightarrow> t \<le> iLast \<Longrightarrow>
   walk_ahead g str iLast t idxs =
     Some (idxs \<union> {j. t \<le> j \<and> j \<le> iLast \<and> (\<forall>i. t < i \<and> i \<le> j \<longrightarrow> stardict_strcmp str (k i) = 0)})"
proof (induction g str iLast t idxs rule: walk_ahead.induct)
  case (1 key str iLast iThisIndex idxs)
  note g1 = "1.prems"(1) and hi = "1.prems"(2) and t0 = "1.prems"(3) and tl = "1.prems"(4)
  let ?S = "\<lambda>t. {j. t \<le> j \<and> j \<le> iLast \<and> (\<forall>i. t < i \<and> i \<le> j \<longrightarrow> stardict_strcmp str (k i) = 0)}"
  show ?case
  proof (cases "iThisIndex + 1 \<le> iLast")
    case False
    with tl have "iThisIndex = iLast" by simp
    then have e: "?S iThisIndex = {iThisIndex}" by auto
    have w: "walk_ahead key str iLast iThisIndex idxs = Some (insert iThisIndex idxs)"
      using False by (subst walk_ahead.simps) (simp add: Let_def)
    show ?thesis by (simp only: w e Un_insert_right Un_empty_right)
  next
    case True
    have kn: "key (iThisIndex + 1) = Some (k (iThisIndex + 1))"
      using g1[of "iThisIndex + 1"] True hi t0 by simp
    show ?thesis
    proof (cases "stardict_strcmp str (k (iThisIndex + 1)) = 0")
      case False
      have e: "?S iThisIndex = {iThisIndex}"
      proof (rule set_eqI)
        fix x
        show "x \<in> ?S iThisIndex \<longleftrightarrow> x \<in> {iThisIndex}"
        proof (cases "x = iThisIndex")
          case True
          with tl show ?thesis by auto
        next
          case ne: False
          have "\<not> (\<forall>i. iThisIndex < i \<and> i \<le> x \<longrightarrow> stardict_strcmp str (k i) = 0)" if "iThisIndex \<le> x"
            using False that ne by (intro notI) (auto dest!: spec[of _ "iThisIndex + 1"])
          with ne show ?thesis by auto
        qed
      qed
      have w: "walk_ahead key str iLast iThisIndex idxs = Some (insert iThisIndex idxs)"
        using True kn False by (subst walk_ahead.simps) (simp add: Let_def)
      show ?thesis by (simp only: w e Un_insert_right Un_empty_right)
    next
      case eq: True
      have step: "walk_ahead key str iLast iThisIndex idxs =
          walk_ahead key str iLast (iThisIndex + 1) (insert iThisIndex idxs)"
        using True kn eq by (subst walk_ahead.simps) (simp add: Let_def)
      have ih: "walk_ahead key str iLast (iThisIndex + 1) (insert iThisIndex idxs) =
          Some (insert iThisIndex idxs \<union> ?S (iThisIndex + 1))"
        using "1.IH"[OF refl refl True kn eq g1 hi] t0 True by simp
      have sets: "insert iThisIndex idxs \<union> ?S (iThisIndex + 1) = idxs \<union> ?S iThisIndex"
        (is "?L = ?R")
      proof (rule set_eqI)
        fix x
        show "x \<in> ?L \<longleftrightarrow> x \<in> ?R"
        proof (cases "x = iThisIndex")
          case True
          with tl show ?thesis by auto
        next
          case False
          have "(\<forall>i. iThisIndex + 1 < i \<and> i \<le> x \<longrightarrow> stardict_strcmp str (k i) = 0) \<longleftrightarrow>
                (\<forall>i. iThisIndex < i \<and> i \<le> x \<longrightarrow> stardict_strcmp str (k i) = 0)"
          proof
            assume a: "\<forall>i. iThisIndex + 1 < i \<and> i \<le> x \<longrightarrow> stardict_strcmp str (k i) = 0"
            show "\<forall>i. iThisIndex < i \<and> i \<le> x \<longrightarrow> stardict_strcmp str (k i) = 0"
            proof (intro allI impI)
              fix i assume i: "iThisIndex < i \<and> i \<le> x"
              show "stardict_strcmp str (k i) = 0"
              proof (cases "i = iThisIndex + 1")
                case True
                with eq show ?thesis by simp
              next
                case False
                with i have "iThisIndex + 1 < i \<and> i \<le> x" by simp
                with a show ?thesis by blast
              qed
            qed
          next
            assume a: "\<forall>i. iThisIndex < i \<and> i \<le> x \<longrightarrow> stardict_strcmp str (k i) = 0"
            show "\<forall>i. iThisIndex + 1 < i \<and> i \<le> x \<longrightarrow> stardict_strcmp str (k i) = 0"
              using a by auto
          qed
          with False show ?thesis by auto
        qed
      qed
      show ?thesis unfolding step ih sets ..
    qed
  qed
qed


lemma walk_matches_correct:
  assumes g: "\<And>i. 0 \<le> i \<Longrightarrow> i \<le> hi \<Longrightarrow> g i = Some (k i)"
    and mono: "\<And>i j. 0 \<le> i \<Longrightarrow> i \<le> j \<Longrightarrow> j \<le> hi \<Longrightarrow> cmp_key (k i) \<le> cmp_key (k j)"
    and t: "0 \<le> t" "t \<le> hi" and m: "cmp_key (k t) = cmp_key str"
  shows "walk_matches g str hi t idxs =
           Some (idxs \<union> {j. 0 \<le> j \<and> j \<le> hi \<and> stardict_strcmp str (k j) = 0})"
proof -
  let ?B = "{j. 0 \<le> j \<and> j \<le> t - 1 \<and> (\<forall>i. j \<le> i \<and> i \<le> t - 1 \<longrightarrow> stardict_strcmp str (k i) = 0)}"
  let ?A = "{j. t \<le> j \<and> j \<le> hi \<and> (\<forall>i. t < i \<and> i \<le> j \<longrightarrow> stardict_strcmp str (k i) = 0)}"
  let ?M = "{j. 0 \<le> j \<and> j \<le> hi \<and> stardict_strcmp str (k j) = 0}"
  have b: "walk_behind g str (t - 1) idxs = Some (idxs \<union> ?B)"
    using t by (intro walk_behind_correct[where hi = hi] g) simp_all
  have a: "walk_ahead g str hi t (idxs \<union> ?B) = Some ((idxs \<union> ?B) \<union> ?A)"
    using t by (intro walk_ahead_correct[where hi = hi] g) simp_all
  have match_iff: "stardict_strcmp str (k j) = 0 \<longleftrightarrow> cmp_key (k j) = cmp_key str" for j
    by (auto simp: stardict_strcmp_eq)
  have between: "cmp_key (k i) = cmp_key str"
    if "0 \<le> a" "a \<le> i" "i \<le> b" "b \<le> hi" "cmp_key (k a) = cmp_key str" "cmp_key (k b) = cmp_key str"
    for a i b
  proof -
    have "cmp_key (k a) \<le> cmp_key (k i)" using mono[of a i] that by simp
    moreover have "cmp_key (k i) \<le> cmp_key (k b)" using mono[of i b] that by simp
    ultimately show ?thesis using that(5,6) by simp
  qed
  have "?B \<union> ?A = ?M"
  proof (rule set_eqI)
    fix x
    show "x \<in> ?B \<union> ?A \<longleftrightarrow> x \<in> ?M"
    proof
      assume "x \<in> ?B \<union> ?A"
      then show "x \<in> ?M"
      proof
        assume "x \<in> ?B"
        then show ?thesis using t by auto
      next
        assume xa: "x \<in> ?A"
        show ?thesis
        proof (cases "x = t")
          case True
          with t m show ?thesis by (simp add: match_iff)
        next
          case False
          with xa t show ?thesis by auto
        qed
      qed
    next
      assume xm: "x \<in> ?M"
      then have x: "0 \<le> x" "x \<le> hi" "cmp_key (k x) = cmp_key str"
        by (simp_all add: match_iff)
      show "x \<in> ?B \<union> ?A"
      proof (cases "x < t")
        case True
        have "\<forall>i. x \<le> i \<and> i \<le> t - 1 \<longrightarrow> stardict_strcmp str (k i) = 0"
          using between[of x _ t] x t m by (simp add: match_iff)
        with True x show ?thesis by simp
      next
        case False
        have "\<forall>i. t < i \<and> i \<le> x \<longrightarrow> stardict_strcmp str (k i) = 0"
          using between[of t _ x] x t m by (simp add: match_iff)
        with False x show ?thesis by simp
      qed
    qed
  qed
  then have u: "(idxs \<union> ?B) \<union> ?A = idxs \<union> ?M" by blast
  have "walk_matches g str hi t idxs = walk_ahead g str hi t (idxs \<union> ?B)"
    unfolding walk_matches_def b by simp
  also have "\<dots> = Some ((idxs \<union> ?B) \<union> ?A)" by (rule a)
  finally show ?thesis unfolding u .
qed

text \<open>Sorted keys as a monotone map into the comparator's linear order.\<close>

lemma index_sorted_mono:
  assumes "index_sorted keys" "0 \<le> i" "i \<le> j" "j < int (length keys)"
  shows "cmp_key (keys ! nat i) \<le> cmp_key (keys ! nat j)"
proof (cases "i = j")
  case True
  then show ?thesis by simp
next
  case False
  with assms have "nat i < nat j" "nat j < length keys" by simp_all
  with assms(1) have "stardict_strcmp (keys ! nat i) (keys ! nat j) \<le> 0"
    by (simp add: index_sorted_def sorted_wrt_iff_nth_less)
  then show ?thesis by (simp add: stardict_strcmp_le)
qed

lemma matching_alt:
  "matching keys str = {j. 0 \<le> j \<and> j \<le> int (length keys) - 1 \<and> stardict_strcmp str (keys ! nat j) = 0}"
  by (auto simp: matching_def)

lemma insertion_point_eq:
  assumes "0 \<le> f" "f \<le> int (length keys)"
    and below: "\<And>j. 0 \<le> j \<Longrightarrow> j < f \<Longrightarrow> cmp_key (keys ! nat j) < cmp_key str"
    and above: "\<And>j. f \<le> j \<Longrightarrow> j < int (length keys) \<Longrightarrow> cmp_key str < cmp_key (keys ! nat j)"
  shows "insertion_point keys str = f" and "matching keys str = {}"
proof -
  have "takeWhile (\<lambda>k. stardict_strcmp str k > 0) keys = take (nat f) keys"
  proof (rule takeWhile_eq_take_P_nth)
    fix i assume "i < nat f" "i < length keys"
    then show "0 < stardict_strcmp str (keys ! i)"
      using below[of "int i"] by (simp add: stardict_strcmp_greater)
  next
    assume "nat f < length keys"
    then have "cmp_key str < cmp_key (keys ! nat f)"
      using above[of f] assms(1) by simp
    then show "\<not> 0 < stardict_strcmp str (keys ! nat f)"
      by (simp add: stardict_strcmp_greater)
  qed
  then show "insertion_point keys str = f"
    using assms(1,2) by (simp add: insertion_point_def)
  show "matching keys str = {}"
  proof (rule ccontr)
    assume "matching keys str \<noteq> {}"
    then obtain j where j: "0 \<le> j" "j < int (length keys)" "cmp_key str = cmp_key (keys ! nat j)"
      by (auto simp: matching_def stardict_strcmp_eq)
    show False
    proof (cases "j < f")
      case True
      with below[of j] j show False by simp
    next
      case False
      with above[of j] j show False by simp
    qed
  qed
qed


lemma key_at_nth: "0 \<le> i \<Longrightarrow> i \<le> int (length keys) - 1 \<Longrightarrow> key_at keys i = Some (keys ! nat i)"
  by (simp add: key_at_def)

lemma last_conv_nth_int: "keys \<noteq> [] \<Longrightarrow> last keys = keys ! nat (int (length keys) - 1)"
  by (simp add: last_conv_nth nat_diff_distrib')

text \<open>
  What both lookups do once the first and the last key are passed: a found index leads
  to all matching indices, and a failed search to the insertion point.
\<close>

lemma spec_lookup_before_first:
  assumes s: "index_sorted keys" and ne: "keys \<noteq> []"
    and lt: "stardict_strcmp str (keys ! 0) < 0"
  shows "spec_lookup keys str idxs nx = (False, idxs, 0)"
proof -
  have c: "cmp_key str < cmp_key (keys ! nat j)" if "0 \<le> j" "j < int (length keys)" for j
  proof -
    have "cmp_key (keys ! nat 0) \<le> cmp_key (keys ! nat j)"
      using index_sorted_mono[OF s, of 0 j] that by simp
    moreover have "cmp_key str < cmp_key (keys ! nat 0)"
      using lt by (simp add: stardict_strcmp_less)
    ultimately show ?thesis by (rule less_le_trans[rotated])
  qed
  have i: "insertion_point keys str = 0" and m: "matching keys str = {}"
    using insertion_point_eq[of 0 keys str] c by simp_all
  have "cmp_key str < cmp_key (last keys)"
    using c[of "int (length keys) - 1"] ne by (simp add: last_conv_nth_int)
  then have "\<not> stardict_strcmp str (last keys) > 0"
    by (simp add: stardict_strcmp_greater)
  then show ?thesis by (simp add: spec_lookup_def i m)
qed

lemma spec_lookup_after_last:
  assumes s: "index_sorted keys" and ne: "keys \<noteq> []"
    and gt: "stardict_strcmp str (last keys) > 0"
  shows "spec_lookup keys str idxs nx = (False, idxs, INVALID_INDEX)"
proof -
  have c: "cmp_key (keys ! nat j) < cmp_key str" if "0 \<le> j" "j < int (length keys)" for j
  proof -
    have "cmp_key (keys ! nat j) \<le> cmp_key (keys ! nat (int (length keys) - 1))"
      using index_sorted_mono[OF s, of j "int (length keys) - 1"] that by simp
    moreover have "cmp_key (keys ! nat (int (length keys) - 1)) < cmp_key str"
      using gt ne by (simp add: stardict_strcmp_greater last_conv_nth_int)
    ultimately show ?thesis by (rule le_less_trans)
  qed
  have m: "matching keys str = {}"
    using insertion_point_eq(2)[of "int (length keys)" keys str] c by simp
  show ?thesis using gt by (simp add: spec_lookup_def m)
qed

lemma spec_lookup_found:
  assumes "0 \<le> t" "t < int (length keys)" "cmp_key (keys ! nat t) = cmp_key str"
  shows "spec_lookup keys str idxs nx = (True, idxs \<union> matching keys str, nx)"
proof -
  have "t \<in> matching keys str"
    using assms by (simp add: matching_def stardict_strcmp_eq)
  then have "matching keys str \<noteq> {}" by blast
  then show ?thesis by (simp add: spec_lookup_def)
qed

lemma spec_lookup_not_found:
  assumes "0 \<le> f" "f \<le> int (length keys)"
    and "\<And>j. 0 \<le> j \<Longrightarrow> j < f \<Longrightarrow> cmp_key (keys ! nat j) < cmp_key str"
    and "\<And>j. f \<le> j \<Longrightarrow> j < int (length keys) \<Longrightarrow> cmp_key str < cmp_key (keys ! nat j)"
    and "\<not> stardict_strcmp str (last keys) > 0"
  shows "spec_lookup keys str idxs nx = (False, idxs, f)"
  using insertion_point_eq[OF assms(1-4)] assms(5) by (simp add: spec_lookup_def)

lemma WordListIndex_lookup_spec:
  assumes s: "index_sorted keys" and ne: "keys \<noteq> []"
  shows "WordListIndex_lookup keys str idxs nx = Some (spec_lookup keys str idxs nx)"
proof -
  define n where "n = int (length keys)"
  define k where "k = (\<lambda>i. keys ! nat i)"
  have n: "1 \<le> n" using ne by (cases keys) (simp_all add: n_def)
  have g: "key_at keys i = Some (k i)" if "0 \<le> i" "i \<le> n - 1" for i
    using that by (simp add: key_at_def n_def k_def)
  have mono: "cmp_key (k i) \<le> cmp_key (k j)" if "0 \<le> i" "i \<le> j" "j \<le> n - 1" for i j
    using index_sorted_mono[OF s, of i j] that by (simp add: n_def k_def)
  have k0: "key_at keys 0 = Some (keys ! 0)" using g[of 0] n by (simp add: k_def)
  have kl: "key_at keys (n - 1) = Some (last keys)"
    using g[of "n - 1"] n ne by (simp add: k_def last_conv_nth_int n_def)
  have iLast: "int (length keys) + 1 - 2 = n - 1" by (simp add: n_def)
  show ?thesis
  proof (cases "stardict_strcmp str (keys ! 0) < 0")
    case True
    then show ?thesis
      using spec_lookup_before_first[OF s ne True, of idxs nx]
      by (simp add: WordListIndex_lookup_def Let_def k0)
  next
    case nlt: False
    show ?thesis
    proof (cases "stardict_strcmp str (last keys) > 0")
      case True
      then show ?thesis
        using spec_lookup_after_last[OF s ne True, of idxs nx] nlt
        by (simp add: WordListIndex_lookup_def Let_def k0 iLast kl)
    next
      case ngt: False
      have le_last: "cmp_key str \<le> cmp_key (k (n - 1))"
        using ngt ne by (simp add: stardict_strcmp_greater not_less k_def last_conv_nth_int n_def)
      obtain b t f to where sl: "search_loop (key_at keys) str 0 (n - 1) 0 = Some (b, t, f, to)"
        and found: "b \<longrightarrow> 0 \<le> t \<and> t \<le> n - 1 \<and> cmp_key (k t) = cmp_key str"
        and miss: "\<not> b \<longrightarrow> f = to + 1 \<and> 0 \<le> f \<and> to \<le> n - 1 \<and>
          (\<forall>j. 0 \<le> j \<and> j < f \<longrightarrow> cmp_key (k j) < cmp_key str) \<and>
          (\<forall>j. to < j \<and> j \<le> n - 1 \<longrightarrow> cmp_key str < cmp_key (k j))"
        using search_loop_correct[of 0 "n - 1" "key_at keys" k 0 "n - 1" str 0] g mono n
        by auto
      show ?thesis
      proof (cases b)
        case True
        with found have t: "0 \<le> t" "t \<le> n - 1" "cmp_key (k t) = cmp_key str" by simp_all
        have w: "walk_matches (key_at keys) str (n - 1) t idxs = Some (idxs \<union> matching keys str)"
          using walk_matches_correct[of "n - 1" "key_at keys" k t str idxs] g mono t
          by (simp add: matching_alt n_def k_def)
        have sp: "spec_lookup keys str idxs nx = (True, idxs \<union> matching keys str, nx)"
          using spec_lookup_found[of t keys str idxs nx] t by (simp add: n_def k_def)
        show ?thesis
          using nlt ngt True
          by (simp add: WordListIndex_lookup_def Let_def k0 iLast kl sl w sp)
      next
        case False
        with miss have f: "f = to + 1" "0 \<le> f" "to \<le> n - 1"
          and below: "\<And>j. 0 \<le> j \<Longrightarrow> j < f \<Longrightarrow> cmp_key (k j) < cmp_key str"
          and above: "\<And>j. to < j \<Longrightarrow> j \<le> n - 1 \<Longrightarrow> cmp_key str < cmp_key (k j)"
          by simp_all
        have sp: "spec_lookup keys str idxs nx = (False, idxs, f)"
        proof (rule spec_lookup_not_found)
          show "0 \<le> f" by (rule f(2))
          show "f \<le> int (length keys)" using f by (simp add: n_def)
          show "cmp_key (keys ! nat j) < cmp_key str" if "0 \<le> j" "j < f" for j
            using below[OF that] by (simp add: k_def)
          show "cmp_key str < cmp_key (keys ! nat j)" if "f \<le> j" "j < int (length keys)" for j
            using above[of j] that f by (simp add: k_def n_def)
          show "\<not> stardict_strcmp str (last keys) > 0" by (rule ngt)
        qed
        show ?thesis
          using nlt ngt False
          by (simp add: WordListIndex_lookup_def Let_def k0 iLast kl sl sp)
      qed
    qed
  qed
qed


lemma page_split:
  fixes n :: int
  assumes "1 \<le> n"
  shows "32 * ((n - 1) div 32) + (if n mod 32 = 0 then 32 else n mod 32) = n"
    and "1 \<le> (if n mod 32 = 0 then 32 else n mod 32)"
    and "(if n mod 32 = 0 then 32 else n mod 32) \<le> 32"
    and "0 \<le> (n - 1) div 32"
proof -
  define q where "q = (n - 1) div 32"
  define r where "r = (n - 1) mod 32"
  have r: "0 \<le> r" "r < 32" by (simp_all add: r_def)
  have e: "n = 32 * q + (r + 1)"
    using div_mult_mod_eq[of "n - 1" 32] by (simp add: q_def r_def)
  have nm: "n mod 32 = (r + 1) mod 32"
    unfolding e by (simp add: mod_simps)
  have m: "(if n mod 32 = 0 then 32 else n mod 32) = r + 1"
  proof (cases "r + 1 = 32")
    case True
    then show ?thesis by (simp add: nm)
  next
    case False
    with r have "r + 1 < 32" by simp
    then have "(r + 1) mod 32 = r + 1" using r by simp
    with r show ?thesis by (simp add: nm)
  qed
  show "32 * ((n - 1) div 32) + (if n mod 32 = 0 then 32 else n mod 32) = n"
    unfolding m q_def[symmetric] using e by simp
  show "1 \<le> (if n mod 32 = 0 then 32 else n mod 32)" unfolding m using r by simp
  show "(if n mod 32 = 0 then 32 else n mod 32) \<le> 32" unfolding m using r by simp
  show "0 \<le> (n - 1) div 32" using assms by simp
qed

lemma div32_mono: "(0::int) \<le> i \<Longrightarrow> i < n \<Longrightarrow> i div 32 \<le> (n - 1) div 32"
  by (intro zdiv_mono1) simp_all

lemma last_page_bounds:
  assumes "keys \<noteq> []"
  shows "0 \<le> last_page keys" and "32 * last_page keys \<le> int (length keys) - 1"
    and "int (length keys) - 1 < 32 * last_page keys + 32"
proof -
  have n1: "1 \<le> int (length keys)" using assms by (cases keys) simp_all
  note ps = page_split[OF n1]
  show "0 \<le> last_page keys"
    using ps(4) by (simp add: last_page_def ENTR_PER_PAGE_def)
  show "32 * last_page keys \<le> int (length keys) - 1"
    using ps(1,2) by (simp add: last_page_def ENTR_PER_PAGE_def)
  show "int (length keys) - 1 < 32 * last_page keys + 32"
    using ps(1,3) by (simp add: last_page_def ENTR_PER_PAGE_def)
qed

lemma read_first_on_page_key_loaded:
  assumes "keys \<noteq> []" "0 \<le> p" "p \<le> last_page keys" and fit: "keys_fit keys"
  shows "read_first_on_page_key keys (last_page keys + 2) p = Some (keys ! nat (32 * p))"
proof -
  note b = last_page_bounds[OF assms(1)]
  have i: "nat (32 * p) < length keys"
    using assms(2,3) b by (simp add: nat_less_iff)
  have "strlen (keys ! nat (32 * p)) < sizeof_wordentry_buf"
    using fit i unfolding keys_fit_def list_all_length by blast
  then show ?thesis
    using assms(2,3) b by (simp add: read_first_on_page_key_def key_at_def ENTR_PER_PAGE_def)
qed

lemma load_page_loaded:
  assumes "keys \<noteq> []" "0 \<le> p" "p \<le> last_page keys"
  shows "\<exists>nentr. load_page (loaded_index keys) p = Some nentr \<and> 1 \<le> nentr \<and> nentr \<le> 32 \<and>
           32 * p + nentr \<le> int (length keys) \<and>
           (if p = last_page keys then 32 * p + nentr = int (length keys) else nentr = 32)"
proof -
  note b = last_page_bounds[OF assms(1)]
  have n1: "1 \<le> int (length keys)" using assms(1) by (cases keys) simp_all
  show ?thesis
  proof (cases "p = last_page keys")
    case True
    define ne where "ne = (if int (length keys) mod 32 = 0 then 32 else int (length keys) mod 32)"
    have "32 * last_page keys + ne = int (length keys)" "1 \<le> ne" "ne \<le> 32"
      using page_split(1-3)[OF n1] by (simp_all add: last_page_def ENTR_PER_PAGE_def ne_def)
    moreover have "load_page (loaded_index keys) p = Some ne"
      using True assms(2) by (simp add: load_page_def loaded_index_def ENTR_PER_PAGE_def ne_def)
    ultimately show ?thesis
      using True by simp
  next
    case False
    with assms have "p + 1 \<le> last_page keys" by simp
    then have "32 * p + 32 \<le> int (length keys)" using b by simp
    with False assms show ?thesis
      by (simp add: load_page_def loaded_index_def ENTR_PER_PAGE_def)
  qed
qed

lemma page_entry_key_loaded:
  assumes "keys \<noteq> []" "0 \<le> p" "p \<le> last_page keys"
    and "load_page (loaded_index keys) p = Some nentr" "0 \<le> i" "i < nentr"
  shows "page_entry_key (loaded_index keys) p i = Some (keys ! nat (32 * p + i))"
proof -
  from load_page_loaded[OF assms(1-3)] assms(4)
  have "32 * p + nentr \<le> int (length keys)" by auto
  with assms show ?thesis
    by (simp add: page_entry_key_def key_at_def ENTR_PER_PAGE_def loaded_index_def)
qed

lemma OffsetIndex_get_key_loaded:
  assumes "keys \<noteq> []" "0 \<le> i" "i < int (length keys)"
  shows "OffsetIndex_get_key (loaded_index keys) i = Some (keys ! nat i)"
proof -
  define p where "p = i div 32"
  define r where "r = i mod 32"
  have i: "32 * p + r = i" "0 \<le> r" "r < 32" "0 \<le> p"
    using assms(2) by (simp_all add: p_def r_def)
  have pl: "p \<le> last_page keys"
    using div32_mono[OF assms(2,3)] by (simp add: p_def last_page_def ENTR_PER_PAGE_def)
  from load_page_loaded[OF assms(1) i(4) pl] obtain nentr where
    lp: "load_page (loaded_index keys) p = Some nentr"
    and ne: "if p = last_page keys then 32 * p + nentr = int (length keys) else nentr = 32"
    by blast
  have "r < nentr"
    using ne i assms(3) by (auto split: if_splits)
  then have pe: "page_entry_key (loaded_index keys) p r = Some (keys ! nat (32 * p + r))"
    using page_entry_key_loaded[OF assms(1) i(4) pl lp i(2)] by simp
  have "OffsetIndex_get_key (loaded_index keys) i = page_entry_key (loaded_index keys) p r"
    using assms(2) by (simp add: OffsetIndex_get_key_def ENTR_PER_PAGE_def p_def r_def)
  also have "\<dots> = Some (keys ! nat (32 * p + r))" by (rule pe)
  finally show ?thesis unfolding i(1) .
qed

lemma get_first_on_page_key_loaded:
  assumes "keys \<noteq> []" "0 \<le> p" "p \<le> last_page keys" "keys_fit keys"
  shows "get_first_on_page_key (loaded_index keys) p = Some (keys ! nat (32 * p))"
proof -
  have r: "read_first_on_page_key (oi_keys (loaded_index keys)) (oi_wordoffset_size (loaded_index keys)) p
           = Some (keys ! nat (32 * p))"
    using read_first_on_page_key_loaded[OF assms] by (simp add: loaded_index_def)
  have a: "idx (oi_first (loaded_index keys)) = 0" "keystr (oi_first (loaded_index keys)) = keys ! nat (32 * 0)"
    "idx (oi_last (loaded_index keys)) = last_page keys"
    "keystr (oi_last (loaded_index keys)) = keys ! nat (32 * last_page keys)"
    "idx (oi_middle (loaded_index keys)) = last_page keys div 2"
    "keystr (oi_middle (loaded_index keys)) = keys ! nat (32 * (last_page keys div 2))"
    by (simp_all add: loaded_index_def ENTR_PER_PAGE_def)
  show ?thesis
    unfolding get_first_on_page_key_def r a by auto
qed

lemma OffsetIndex_load_keys:
  assumes ne: "keys \<noteq> []" and fit: "keys_fit keys"
  shows "OffsetIndex_load keys = Some (loaded_index keys)"
proof -
  note b = last_page_bounds[OF ne]
  have n1: "int (length keys) \<noteq> 0" using ne by simp
  have np: "(int (length keys) - 1) div ENTR_PER_PAGE + 2 = last_page keys + 2"
    by (simp add: last_page_def)
  have np2: "last_page keys + 2 - 2 = last_page keys" by simp
  have f: "read_first_on_page_key keys (last_page keys + 2) 0 = Some (keys ! 0)"
    using read_first_on_page_key_loaded[OF ne _ _ fit, of 0] b by simp
  have l: "read_first_on_page_key keys (last_page keys + 2) (last_page keys) =
      Some (keys ! nat (32 * last_page keys))"
    using read_first_on_page_key_loaded[OF ne _ _ fit, of "last_page keys"] b by simp
  have m: "read_first_on_page_key keys (last_page keys + 2) (last_page keys div 2) =
      Some (keys ! nat (32 * (last_page keys div 2)))"
    using read_first_on_page_key_loaded[OF ne _ _ fit, of "last_page keys div 2"] b by simp
  define oi where "oi = \<lparr> oi_keys = keys, oi_wordcount = int (length keys), oi_wordoffset_size = last_page keys + 2,
       oi_first = \<lparr> idx = 0, keystr = keys ! 0 \<rparr>,
       oi_last = \<lparr> idx = last_page keys, keystr = keys ! nat (32 * last_page keys) \<rparr>,
       oi_middle = \<lparr> idx = last_page keys div 2, keystr = keys ! nat (32 * (last_page keys div 2)) \<rparr>,
       oi_real_last = \<lparr> idx = int (length keys) - 1, keystr = [] \<rparr> \<rparr>"
  have lp: "load_page oi p = load_page (loaded_index keys) p" for p
    by (simp add: load_page_def oi_def loaded_index_def)
  have ok: "oi_keys oi = oi_keys (loaded_index keys)"
    by (simp add: oi_def loaded_index_def)
  have same: "OffsetIndex_get_key oi i = OffsetIndex_get_key (loaded_index keys) i" for i
    unfolding OffsetIndex_get_key_def page_entry_key_def lp ok ..
  have g: "OffsetIndex_get_key oi (int (length keys) - 1) = Some (last keys)"
    unfolding same using OffsetIndex_get_key_loaded[OF ne, of "int (length keys) - 1"] ne
    by (simp add: last_conv_nth_int)
  have upd: "oi \<lparr> oi_real_last := \<lparr> idx = int (length keys) - 1, keystr = last keys \<rparr> \<rparr> = loaded_index keys"
    by (simp add: oi_def loaded_index_def ENTR_PER_PAGE_def)
  show ?thesis
    unfolding OffsetIndex_load_def Let_def np np2
    using n1 by (simp add: f l m ENTR_PER_PAGE_def oi_def[symmetric] g upd)
qed


lemma OffsetIndex_lookup_spec:
  assumes s: "index_sorted keys" and ne: "keys \<noteq> []" and fit: "keys_fit keys"
  shows "OffsetIndex_lookup (loaded_index keys) str idxs nx = Some (spec_lookup keys str idxs nx)"
proof -
  define oi where "oi = loaded_index keys"
  define n where "n = int (length keys)"
  define P where "P = last_page keys"
  define k where "k = (\<lambda>i. keys ! nat i)"
  define kp where "kp = (\<lambda>p. keys ! nat (32 * p))"
  note lb = last_page_bounds[OF ne, folded P_def n_def]
  have n1: "1 \<le> n" using ne by (cases keys) (simp_all add: n_def)
  have mono: "cmp_key (k i) \<le> cmp_key (k j)" if "0 \<le> i" "i \<le> j" "j \<le> n - 1" for i j
    using index_sorted_mono[OF s, of i j] that by (simp add: n_def k_def)
  have kp_k: "kp p = k (32 * p)" for p by (simp add: kp_def k_def)
  have gp: "get_first_on_page_key oi p = Some (kp p)" if "0 \<le> p" "p \<le> P" for p
    using get_first_on_page_key_loaded[OF ne _ _ fit, of p] that by (simp add: oi_def P_def kp_def)
  have monop: "cmp_key (kp i) \<le> cmp_key (kp j)" if "0 \<le> i" "i \<le> j" "j \<le> P" for i j
    unfolding kp_k using mono[of "32 * i" "32 * j"] that lb by simp
  have gk: "OffsetIndex_get_key oi i = Some (k i)" if "0 \<le> i" "i \<le> n - 1" for i
    using OffsetIndex_get_key_loaded[OF ne, of i] that by (simp add: oi_def n_def k_def)
  have fields: "keystr (oi_first oi) = keys ! 0" "keystr (oi_real_last oi) = last keys"
    "idx (oi_real_last oi) = n - 1" "oi_wordoffset_size oi - 2 = P"
    by (simp_all add: oi_def loaded_index_def n_def P_def)
  have found_at: "walk_matches (OffsetIndex_get_key oi) str (n - 1) t idxs = Some (idxs \<union> matching keys str)
      \<and> spec_lookup keys str idxs nx = (True, idxs \<union> matching keys str, nx)"
    if "0 \<le> t" "t \<le> n - 1" "cmp_key (k t) = cmp_key str" for t
  proof
    show "walk_matches (OffsetIndex_get_key oi) str (n - 1) t idxs = Some (idxs \<union> matching keys str)"
      using walk_matches_correct[of "n - 1" "OffsetIndex_get_key oi" k t str idxs] gk mono that
      by (simp add: matching_alt n_def k_def)
    show "spec_lookup keys str idxs nx = (True, idxs \<union> matching keys str, nx)"
      using spec_lookup_found[of t keys str idxs nx] that by (simp add: n_def k_def)
  qed
  show ?thesis
  proof (cases "stardict_strcmp str (keys ! 0) < 0")
    case True
    then show ?thesis
      using spec_lookup_before_first[OF s ne True, of idxs nx]
      by (simp add: OffsetIndex_lookup_def oi_def[symmetric] fields)
  next
    case nlt: False
    show ?thesis
    proof (cases "stardict_strcmp str (last keys) > 0")
      case True
      then show ?thesis
        using spec_lookup_after_last[OF s ne True, of idxs nx] nlt
        by (simp add: OffsetIndex_lookup_def oi_def[symmetric] fields)
    next
      case ngt: False
      have ge_first: "cmp_key (k 0) \<le> cmp_key str"
        using nlt by (simp add: stardict_strcmp_less not_less k_def)
      obtain b t f to where sl: "search_loop (get_first_on_page_key oi) str 0 P 0 = Some (b, t, f, to)"
        and found: "b \<longrightarrow> 0 \<le> t \<and> t \<le> P \<and> cmp_key (kp t) = cmp_key str"
        and miss: "\<not> b \<longrightarrow> f = to + 1 \<and> 0 \<le> f \<and> to \<le> P \<and>
          (\<forall>j. 0 \<le> j \<and> j < f \<longrightarrow> cmp_key (kp j) < cmp_key str) \<and>
          (\<forall>j. to < j \<and> j \<le> P \<longrightarrow> cmp_key str < cmp_key (kp j))"
        using search_loop_correct[of 0 P "get_first_on_page_key oi" kp 0 P str 0] gp monop lb
        by auto
      show ?thesis
      proof (cases b)
        case True
        with found have t: "0 \<le> t" "t \<le> P" "cmp_key (k (32 * t)) = cmp_key str"
          by (simp_all add: kp_k)
        have "0 \<le> 32 * t" "32 * t \<le> n - 1" using t lb by simp_all
        from found_at[OF this t(3)] show ?thesis
          using nlt ngt True
          by (simp add: OffsetIndex_lookup_def oi_def[symmetric] fields sl ENTR_PER_PAGE_def mult.commute)
      next
        case False
        with miss have f: "f = to + 1" "0 \<le> f" "to \<le> P"
          and belowp: "\<And>j. 0 \<le> j \<Longrightarrow> j < f \<Longrightarrow> cmp_key (kp j) < cmp_key str"
          and abovep: "\<And>j. to < j \<Longrightarrow> j \<le> P \<Longrightarrow> cmp_key str < cmp_key (kp j)"
          by simp_all
        have to0: "0 \<le> to"
        proof (rule ccontr)
          assume "\<not> 0 \<le> to"
          then have "cmp_key str < cmp_key (kp 0)" using abovep[of 0] lb by simp
          with ge_first show False by (simp add: kp_k)
        qed
        have "to \<le> last_page keys" using f by (simp add: P_def)
        from load_page_loaded[OF ne to0 this] obtain netr where
          raw: "load_page (loaded_index keys) to = Some netr \<and> 1 \<le> netr \<and> netr \<le> 32 \<and>
           32 * to + netr \<le> int (length keys) \<and>
           (if to = last_page keys then 32 * to + netr = int (length keys) else netr = 32)"
          by blast
        then have lp: "load_page oi to = Some netr" and netr: "1 \<le> netr" "netr \<le> 32" "32 * to + netr \<le> n"
          and netr_last: "if to = P then 32 * to + netr = n else netr = 32"
          unfolding oi_def P_def n_def by blast+
        define ke where "ke = (\<lambda>i. k (32 * to + i))"
        have ge: "page_entry_key oi to i = Some (ke i)" if "0 \<le> i" "i \<le> netr - 1" for i
          using page_entry_key_loaded[OF ne, of to netr i] to0 f lp that
          by (simp add: oi_def P_def ke_def k_def)
        have monoe: "cmp_key (ke i) \<le> cmp_key (ke j)" if "0 \<le> i" "i \<le> j" "j \<le> netr - 1" for i j
          unfolding ke_def using mono[of "32 * to + i" "32 * to + j"] that to0 netr by simp
        obtain b' t' f' to' where sl': "search_loop (page_entry_key oi to) str 0 (netr - 1) t = Some (b', t', f', to')"
          and found': "b' \<longrightarrow> 0 \<le> t' \<and> t' \<le> netr - 1 \<and> cmp_key (ke t') = cmp_key str"
          and miss': "\<not> b' \<longrightarrow> f' = to' + 1 \<and> 0 \<le> f' \<and> to' \<le> netr - 1 \<and>
            (\<forall>j. 0 \<le> j \<and> j < f' \<longrightarrow> cmp_key (ke j) < cmp_key str) \<and>
            (\<forall>j. to' < j \<and> j \<le> netr - 1 \<longrightarrow> cmp_key str < cmp_key (ke j))"
          using search_loop_correct[of 0 "netr - 1" "page_entry_key oi to" ke 0 "netr - 1" str t] ge monoe netr
          by auto
        show ?thesis
        proof (cases b')
          case True
          with found' have t': "0 \<le> t'" "t' \<le> netr - 1" "cmp_key (k (32 * to + t')) = cmp_key str"
            by (simp_all add: ke_def)
          have "0 \<le> 32 * to + t'" "32 * to + t' \<le> n - 1" using t' to0 netr by simp_all
          from found_at[OF this t'(3)] show ?thesis
            using nlt ngt \<open>\<not> b\<close> True
            by (simp add: OffsetIndex_lookup_def oi_def[symmetric] fields sl lp sl' ENTR_PER_PAGE_def mult.commute)
        next
          case nb': False
          with miss' have f': "f' = to' + 1" "0 \<le> f'" "to' \<le> netr - 1"
            and belowe: "\<And>j. 0 \<le> j \<Longrightarrow> j < f' \<Longrightarrow> cmp_key (ke j) < cmp_key str"
            and abovee: "\<And>j. to' < j \<Longrightarrow> j \<le> netr - 1 \<Longrightarrow> cmp_key str < cmp_key (ke j)"
            by simp_all
          have page_first: "cmp_key (k (32 * to)) < cmp_key str"
            using belowp[of to] to0 f by (simp add: kp_k)
          have sp: "spec_lookup keys str idxs nx = (False, idxs, 32 * to + f')"
          proof (rule spec_lookup_not_found)
            show "0 \<le> 32 * to + f'" using to0 f' by simp
            show "32 * to + f' \<le> int (length keys)" using f' netr by (simp add: n_def)
            show "cmp_key (keys ! nat j) < cmp_key str" if "0 \<le> j" "j < 32 * to + f'" for j
            proof (cases "32 * to \<le> j")
              case True
              then have "cmp_key (ke (j - 32 * to)) < cmp_key str"
                using belowe[of "j - 32 * to"] that by simp
              then show ?thesis by (simp add: ke_def k_def)
            next
              case False
              then have "cmp_key (k j) \<le> cmp_key (k (32 * to))"
                using mono[of j "32 * to"] that to0 f lb by simp
              from this page_first have "cmp_key (k j) < cmp_key str" by (rule le_less_trans)
              then show ?thesis by (simp add: k_def)
            qed
            show "cmp_key str < cmp_key (keys ! nat j)" if "32 * to + f' \<le> j" "j < int (length keys)" for j
            proof (cases "j \<le> 32 * to + (netr - 1)")
              case True
              then have "cmp_key str < cmp_key (ke (j - 32 * to))"
                using abovee[of "j - 32 * to"] that f' by simp
              then show ?thesis by (simp add: ke_def k_def)
            next
              case False
              then have far: "32 * to + netr \<le> j" by simp
              have "to \<noteq> P" using netr_last far that by (auto simp: n_def)
              with netr_last f have nx: "netr = 32" "to + 1 \<le> P" by simp_all
              have a: "cmp_key str < cmp_key (k (32 * (to + 1)))"
                using abovep[of "to + 1"] nx by (simp add: kp_k)
              have "cmp_key (k (32 * (to + 1))) \<le> cmp_key (k j)"
                using mono[of "32 * (to + 1)" j] far nx to0 that by (simp add: n_def)
              from a this have "cmp_key str < cmp_key (k j)" by (rule less_le_trans)
              then show ?thesis by (simp add: k_def)
            qed
            show "\<not> stardict_strcmp str (last keys) > 0" by (rule ngt)
          qed
          show ?thesis
            using nlt ngt \<open>\<not> b\<close> nb'
            by (simp add: OffsetIndex_lookup_def oi_def[symmetric] fields sl lp sl' sp ENTR_PER_PAGE_def mult.commute)
        qed
      qed
    qed
  qed
qed


lemma lookups_agree_with_spec:
  assumes "index_sorted keys" "keys \<noteq> []" "keys_fit keys"
  shows "WordListIndex_lookup keys str idxs nx = Some (spec_lookup keys str idxs nx)"
    and "\<exists>oi. OffsetIndex_load keys = Some oi \<and>
           OffsetIndex_lookup oi str idxs nx = Some (spec_lookup keys str idxs nx)"
  using WordListIndex_lookup_spec[OF assms(1,2)] OffsetIndex_lookup_spec[OF assms]
    OffsetIndex_load_keys[OF assms(2,3)] by simp_all

lemma spec_lookup_between:
  assumes s: "index_sorted keys" and i: "Suc i < length keys"
    and lo: "stardict_strcmp (keys ! i) w < 0" and hi: "stardict_strcmp w (keys ! Suc i) < 0"
  shows "spec_lookup keys w idxs nx = (False, idxs, int i + 1)"
proof (rule spec_lookup_not_found)
  have klo: "cmp_key (keys ! i) < cmp_key w" using lo by (simp add: stardict_strcmp_less)
  have khi: "cmp_key w < cmp_key (keys ! Suc i)" using hi by (simp add: stardict_strcmp_less)
  show "0 \<le> int i + 1" by simp
  show "int i + 1 \<le> int (length keys)" using i by simp
  show "cmp_key (keys ! nat j) < cmp_key w" if "0 \<le> j" "j < int i + 1" for j
  proof -
    have "cmp_key (keys ! nat j) \<le> cmp_key (keys ! nat (int i))"
      using index_sorted_mono[OF s, of j "int i"] that i by simp
    then show ?thesis using klo by simp
  qed
  show above: "cmp_key w < cmp_key (keys ! nat j)" if "int i + 1 \<le> j" "j < int (length keys)" for j
  proof -
    have "cmp_key (keys ! nat (int i + 1)) \<le> cmp_key (keys ! nat j)"
      using index_sorted_mono[OF s, of "int i + 1" j] that by simp
    moreover have "nat (int i + 1) = Suc i" by simp
    ultimately show ?thesis using khi by simp
  qed
  have "keys \<noteq> []" using i by auto
  then have "cmp_key w < cmp_key (last keys)"
    using above[of "int (length keys) - 1"] i by (simp add: last_conv_nth_int)
  then show "\<not> 0 < stardict_strcmp w (last keys)"
    by (simp add: stardict_strcmp_greater)
qed

lemma matching_props:
  "j \<in> matching keys w \<Longrightarrow> 0 \<le> j \<and> j < int (length keys) \<and> c_str (keys ! nat j) = c_str w"
  by (auto simp: matching_def stardict_strcmp_eq cmp_key_eq_iff)

lemma matching_self: "i < length keys \<Longrightarrow> int i \<in> matching keys (keys ! i)"
  by (simp add: matching_def stardict_strcmp_eq)

lemma adjacent_sorted_index_sorted: "adjacent_sorted keys \<Longrightarrow> index_sorted keys"
proof (induction keys rule: adjacent_sorted.induct)
  case (1 a b rest)
  then have ab: "cmp_key a \<le> cmp_key b" and ih: "index_sorted (b # rest)"
    by (simp_all add: stardict_strcmp_le)
  have "cmp_key a \<le> cmp_key y" if "y \<in> set (b # rest)" for y
  proof (cases "y = b")
    case True
    with ab show ?thesis by simp
  next
    case False
    with that ih have "cmp_key b \<le> cmp_key y"
      by (auto simp: index_sorted_def stardict_strcmp_le)
    with ab show ?thesis by (rule order_trans)
  qed
  with ih show ?case
    by (simp add: index_sorted_def stardict_strcmp_le)
qed (simp_all add: index_sorted_def)

lemmas cmp_eval = stardict_strcmp_def g_ascii_tolower_def g_ascii_isupper_def byte_def NUL_def

lemma forty_sorted: "index_sorted forty_keys \<and> forty_keys \<noteq> []"
proof
  have "adjacent_sorted forty_keys"
    by (simp add: forty_keys_def cmp_eval)
  then show "index_sorted forty_keys" by (rule adjacent_sorted_index_sorted)
  show "forty_keys \<noteq> []" by (simp add: forty_keys_def)
qed

lemma five_sorted: "index_sorted five_keys \<and> five_keys \<noteq> []"
proof
  have "adjacent_sorted five_keys"
    by (simp add: five_keys_def cmp_eval)
  then show "index_sorted five_keys" by (rule adjacent_sorted_index_sorted)
  show "five_keys \<noteq> []" by (simp add: five_keys_def)
qed

lemma forty_facts:
  "(32::nat) < length forty_keys" "forty_keys ! 32 = ''DC''"
  "Suc 31 < length forty_keys" "forty_keys ! 31 = ''DB''" "forty_keys ! Suc 31 = ''DC''"
  "stardict_strcmp ''DB'' ''DB0'' < 0" "stardict_strcmp ''DB0'' ''DC'' < 0"
  "stardict_strcmp ''A'' (forty_keys ! 0) < 0" "stardict_strcmp ''E'' (last forty_keys) > 0"
  by (simp_all add: forty_keys_def cmp_eval)

text \<open>
  What the key limit excludes: a key of 264 bytes fills \<^verbatim>\<open>wordentry_buf\<close> and
  leaves no room for its NUL, so that \<^verbatim>\<open>load\<close>, which reads the first key of a
  page through that buffer, reads past it.
\<close>

lemma long_key_does_not_fit:
  "\<not> keys_fit [replicate 264 (CHR ''m'')] \<and> OffsetIndex_load [replicate 264 (CHR ''m'')] = None"
  by (simp add: keys_fit_def OffsetIndex_load_def read_first_on_page_key_def key_at_def
      ENTR_PER_PAGE_def strlen_def c_str_def NUL_def sizeof_wordentry_buf_def)

lemma forty_fit: "keys_fit forty_keys"
  by (simp add: keys_fit_def forty_keys_def strlen_def c_str_def NUL_def sizeof_wordentry_buf_def)

text \<open>
  Claim C1. For an index whose keys are in ascending comparator order (invariant I1),
  loaded as a \<^verbatim>\<open>WordListIndex\<close> or as an \<^verbatim>\<open>OffsetIndex\<close>: the lookup of a
  key of the index returns found with the set of all indices whose key equals it, which
  holds the index of that key, and every index in it has the queried key; the lookup of a
  word strictly between two consecutive keys returns not found and the index of the
  higher one in \<^verbatim>\<open>next_idx\<close>; a word before the first key gives
  \<^verbatim>\<open>next_idx = 0\<close> and a word after the last key gives
  \<^verbatim>\<open>INVALID_INDEX\<close>. No lookup reads a key out of range. For the
  \<^verbatim>\<open>OffsetIndex\<close> the keys are headwords within the limit of the file format, so
  that each fits into \<^verbatim>\<open>wordentry_buf\<close>; the \<^verbatim>\<open>WordListIndex\<close> needs no
  such limit.
\<close>

theorem index_lookup_binary_search:
  "\<forall>keys. index_sorted keys \<and> keys \<noteq> [] \<longrightarrow>
     (\<forall>i idxs nx. i < length keys \<longrightarrow>
        (\<exists>S. WordListIndex_lookup keys (keys ! i) idxs nx = Some (True, S, nx) \<and>
             S = idxs \<union> matching keys (keys ! i) \<and> int i \<in> S \<and>
             (\<forall>j \<in> matching keys (keys ! i).
                0 \<le> j \<and> j < int (length keys) \<and> c_str (keys ! nat j) = c_str (keys ! i)))) \<and>
     (\<forall>i w idxs nx. Suc i < length keys \<and>
          stardict_strcmp (keys ! i) w < 0 \<and> stardict_strcmp w (keys ! Suc i) < 0 \<longrightarrow>
        WordListIndex_lookup keys w idxs nx = Some (False, idxs, int i + 1)) \<and>
     (\<forall>w idxs nx. stardict_strcmp w (keys ! 0) < 0 \<longrightarrow>
        WordListIndex_lookup keys w idxs nx = Some (False, idxs, 0)) \<and>
     (\<forall>w idxs nx. stardict_strcmp w (last keys) > 0 \<longrightarrow>
        WordListIndex_lookup keys w idxs nx = Some (False, idxs, INVALID_INDEX)) \<and>
     (keys_fit keys \<longrightarrow>
        (\<exists>oi. OffsetIndex_load keys = Some oi \<and>
           (\<forall>i idxs nx. i < length keys \<longrightarrow>
              (\<exists>S. OffsetIndex_lookup oi (keys ! i) idxs nx = Some (True, S, nx) \<and>
                   S = idxs \<union> matching keys (keys ! i) \<and> int i \<in> S \<and>
                   (\<forall>j \<in> matching keys (keys ! i).
                      0 \<le> j \<and> j < int (length keys) \<and> c_str (keys ! nat j) = c_str (keys ! i)))) \<and>
           (\<forall>i w idxs nx. Suc i < length keys \<and>
                stardict_strcmp (keys ! i) w < 0 \<and> stardict_strcmp w (keys ! Suc i) < 0 \<longrightarrow>
              OffsetIndex_lookup oi w idxs nx = Some (False, idxs, int i + 1)) \<and>
           (\<forall>w idxs nx. stardict_strcmp w (keys ! 0) < 0 \<longrightarrow>
              OffsetIndex_lookup oi w idxs nx = Some (False, idxs, 0)) \<and>
           (\<forall>w idxs nx. stardict_strcmp w (last keys) > 0 \<longrightarrow>
              OffsetIndex_lookup oi w idxs nx = Some (False, idxs, INVALID_INDEX))))"
proof (intro allI impI)
  fix keys
  assume a: "index_sorted keys \<and> keys \<noteq> []"
  then have s: "index_sorted keys" and ne: "keys \<noteq> []" by simp_all
  have found: "\<exists>S. lookup (keys ! i) idxs nx = Some (True, S, nx) \<and>
                S = idxs \<union> matching keys (keys ! i) \<and> int i \<in> S \<and>
                (\<forall>j \<in> matching keys (keys ! i).
                   0 \<le> j \<and> j < int (length keys) \<and> c_str (keys ! nat j) = c_str (keys ! i))"
    if "i < length keys"
      and l: "\<And>str idxs nx. lookup str idxs nx = Some (spec_lookup keys str idxs nx)"
    for i idxs nx and lookup :: "string \<Rightarrow> int set \<Rightarrow> int \<Rightarrow> (bool \<times> int set \<times> int) option"
  proof -
    have "spec_lookup keys (keys ! i) idxs nx = (True, idxs \<union> matching keys (keys ! i), nx)"
      using spec_lookup_found[of "int i" keys "keys ! i" idxs nx] that(1) by simp
    then show ?thesis
      using matching_self[OF that(1)] matching_props[of _ keys "keys ! i"] by (simp add: l)
  qed
  have between: "lookup w idxs nx = Some (False, idxs, int i + 1)"
    if "Suc i < length keys \<and>
             stardict_strcmp (keys ! i) w < 0 \<and> stardict_strcmp w (keys ! Suc i) < 0"
      and l: "\<And>str idxs nx. lookup str idxs nx = Some (spec_lookup keys str idxs nx)"
    for i w idxs nx and lookup :: "string \<Rightarrow> int set \<Rightarrow> int \<Rightarrow> (bool \<times> int set \<times> int) option"
    using spec_lookup_between[OF s, of i w idxs nx] that(1) by (simp add: l)
  have before: "lookup w idxs nx = Some (False, idxs, 0)"
    if "stardict_strcmp w (keys ! 0) < 0"
      and l: "\<And>str idxs nx. lookup str idxs nx = Some (spec_lookup keys str idxs nx)"
    for w idxs nx and lookup :: "string \<Rightarrow> int set \<Rightarrow> int \<Rightarrow> (bool \<times> int set \<times> int) option"
    using spec_lookup_before_first[OF s ne that(1), of idxs nx] by (simp add: l)
  have after: "lookup w idxs nx = Some (False, idxs, INVALID_INDEX)"
    if "stardict_strcmp w (last keys) > 0"
      and l: "\<And>str idxs nx. lookup str idxs nx = Some (spec_lookup keys str idxs nx)"
    for w idxs nx and lookup :: "string \<Rightarrow> int set \<Rightarrow> int \<Rightarrow> (bool \<times> int set \<times> int) option"
    using spec_lookup_after_last[OF s ne that(1), of idxs nx] by (simp add: l)
  have wl: "WordListIndex_lookup keys str idxs nx = Some (spec_lookup keys str idxs nx)" for str idxs nx
    by (rule WordListIndex_lookup_spec[OF s ne])
  have w1: "\<forall>i idxs nx. i < length keys \<longrightarrow>
        (\<exists>S. WordListIndex_lookup keys (keys ! i) idxs nx = Some (True, S, nx) \<and>
             S = idxs \<union> matching keys (keys ! i) \<and> int i \<in> S \<and>
             (\<forall>j \<in> matching keys (keys ! i).
                0 \<le> j \<and> j < int (length keys) \<and> c_str (keys ! nat j) = c_str (keys ! i)))"
    using found[of _ "WordListIndex_lookup keys", OF _ wl] by blast
  have w2: "\<forall>i w idxs nx. Suc i < length keys \<and>
          stardict_strcmp (keys ! i) w < 0 \<and> stardict_strcmp w (keys ! Suc i) < 0 \<longrightarrow>
        WordListIndex_lookup keys w idxs nx = Some (False, idxs, int i + 1)"
    using between[of _ _ "WordListIndex_lookup keys", OF _ wl] by blast
  have w3: "\<forall>w idxs nx. stardict_strcmp w (keys ! 0) < 0 \<longrightarrow>
        WordListIndex_lookup keys w idxs nx = Some (False, idxs, 0)"
    using before[of _ "WordListIndex_lookup keys", OF _ wl] by blast
  have w4: "\<forall>w idxs nx. stardict_strcmp w (last keys) > 0 \<longrightarrow>
        WordListIndex_lookup keys w idxs nx = Some (False, idxs, INVALID_INDEX)"
    using after[of _ "WordListIndex_lookup keys", OF _ wl] by blast
  have o: "\<exists>oi. OffsetIndex_load keys = Some oi \<and>
           (\<forall>i idxs nx. i < length keys \<longrightarrow>
              (\<exists>S. OffsetIndex_lookup oi (keys ! i) idxs nx = Some (True, S, nx) \<and>
                   S = idxs \<union> matching keys (keys ! i) \<and> int i \<in> S \<and>
                   (\<forall>j \<in> matching keys (keys ! i).
                      0 \<le> j \<and> j < int (length keys) \<and> c_str (keys ! nat j) = c_str (keys ! i)))) \<and>
           (\<forall>i w idxs nx. Suc i < length keys \<and>
                stardict_strcmp (keys ! i) w < 0 \<and> stardict_strcmp w (keys ! Suc i) < 0 \<longrightarrow>
              OffsetIndex_lookup oi w idxs nx = Some (False, idxs, int i + 1)) \<and>
           (\<forall>w idxs nx. stardict_strcmp w (keys ! 0) < 0 \<longrightarrow>
              OffsetIndex_lookup oi w idxs nx = Some (False, idxs, 0)) \<and>
           (\<forall>w idxs nx. stardict_strcmp w (last keys) > 0 \<longrightarrow>
              OffsetIndex_lookup oi w idxs nx = Some (False, idxs, INVALID_INDEX))"
    if fit: "keys_fit keys"
  proof -
    define oi where "oi = loaded_index keys"
    have ld: "OffsetIndex_load keys = Some oi"
      using OffsetIndex_load_keys[OF ne fit] by (simp add: oi_def)
    have ol: "OffsetIndex_lookup oi str idxs nx = Some (spec_lookup keys str idxs nx)" for str idxs nx
      unfolding oi_def by (rule OffsetIndex_lookup_spec[OF s ne fit])
    have o1: "\<forall>i idxs nx. i < length keys \<longrightarrow>
              (\<exists>S. OffsetIndex_lookup oi (keys ! i) idxs nx = Some (True, S, nx) \<and>
                   S = idxs \<union> matching keys (keys ! i) \<and> int i \<in> S \<and>
                   (\<forall>j \<in> matching keys (keys ! i).
                      0 \<le> j \<and> j < int (length keys) \<and> c_str (keys ! nat j) = c_str (keys ! i)))"
      using found[of _ "OffsetIndex_lookup oi", OF _ ol] by blast
    have o2: "\<forall>i w idxs nx. Suc i < length keys \<and>
                stardict_strcmp (keys ! i) w < 0 \<and> stardict_strcmp w (keys ! Suc i) < 0 \<longrightarrow>
              OffsetIndex_lookup oi w idxs nx = Some (False, idxs, int i + 1)"
      using between[of _ _ "OffsetIndex_lookup oi", OF _ ol] by blast
    have o3: "\<forall>w idxs nx. stardict_strcmp w (keys ! 0) < 0 \<longrightarrow>
              OffsetIndex_lookup oi w idxs nx = Some (False, idxs, 0)"
      using before[of _ "OffsetIndex_lookup oi", OF _ ol] by blast
    have o4: "\<forall>w idxs nx. stardict_strcmp w (last keys) > 0 \<longrightarrow>
              OffsetIndex_lookup oi w idxs nx = Some (False, idxs, INVALID_INDEX)"
      using after[of _ "OffsetIndex_lookup oi", OF _ ol] by blast
    from ld o1 o2 o3 o4 show ?thesis by (intro exI[of _ oi] conjI)
  qed
  from w1 w2 w3 w4 o
  show "(\<forall>i idxs nx. i < length keys \<longrightarrow>
        (\<exists>S. WordListIndex_lookup keys (keys ! i) idxs nx = Some (True, S, nx) \<and>
             S = idxs \<union> matching keys (keys ! i) \<and> int i \<in> S \<and>
             (\<forall>j \<in> matching keys (keys ! i).
                0 \<le> j \<and> j < int (length keys) \<and> c_str (keys ! nat j) = c_str (keys ! i)))) \<and>
     (\<forall>i w idxs nx. Suc i < length keys \<and>
          stardict_strcmp (keys ! i) w < 0 \<and> stardict_strcmp w (keys ! Suc i) < 0 \<longrightarrow>
        WordListIndex_lookup keys w idxs nx = Some (False, idxs, int i + 1)) \<and>
     (\<forall>w idxs nx. stardict_strcmp w (keys ! 0) < 0 \<longrightarrow>
        WordListIndex_lookup keys w idxs nx = Some (False, idxs, 0)) \<and>
     (\<forall>w idxs nx. stardict_strcmp w (last keys) > 0 \<longrightarrow>
        WordListIndex_lookup keys w idxs nx = Some (False, idxs, INVALID_INDEX)) \<and>
     (keys_fit keys \<longrightarrow>
        (\<exists>oi. OffsetIndex_load keys = Some oi \<and>
           (\<forall>i idxs nx. i < length keys \<longrightarrow>
              (\<exists>S. OffsetIndex_lookup oi (keys ! i) idxs nx = Some (True, S, nx) \<and>
                   S = idxs \<union> matching keys (keys ! i) \<and> int i \<in> S \<and>
                   (\<forall>j \<in> matching keys (keys ! i).
                      0 \<le> j \<and> j < int (length keys) \<and> c_str (keys ! nat j) = c_str (keys ! i)))) \<and>
           (\<forall>i w idxs nx. Suc i < length keys \<and>
                stardict_strcmp (keys ! i) w < 0 \<and> stardict_strcmp w (keys ! Suc i) < 0 \<longrightarrow>
              OffsetIndex_lookup oi w idxs nx = Some (False, idxs, int i + 1)) \<and>
           (\<forall>w idxs nx. stardict_strcmp w (keys ! 0) < 0 \<longrightarrow>
              OffsetIndex_lookup oi w idxs nx = Some (False, idxs, 0)) \<and>
           (\<forall>w idxs nx. stardict_strcmp w (last keys) > 0 \<longrightarrow>
              OffsetIndex_lookup oi w idxs nx = Some (False, idxs, INVALID_INDEX))))"
    by (intro conjI impI)
qed

text \<open>
  The theorem at the index of forty keys: \<^verbatim>\<open>DC\<close> is entry 32, the first of the
  second page; \<^verbatim>\<open>DB0\<close> lies between the last key of the first page and the
  first key of the second.
\<close>

theorem index_lookup_binary_search_witness:
  "\<exists>oi. OffsetIndex_load forty_keys = Some oi \<and>
     WordListIndex_lookup forty_keys ''DC'' {} 0 = Some (True, matching forty_keys ''DC'', 0) \<and>
     OffsetIndex_lookup oi ''DC'' {} 0 = Some (True, matching forty_keys ''DC'', 0) \<and>
     32 \<in> matching forty_keys ''DC'' \<and>
     WordListIndex_lookup forty_keys ''DB0'' {} 0 = Some (False, {}, 32) \<and>
     OffsetIndex_lookup oi ''DB0'' {} 0 = Some (False, {}, 32) \<and>
     WordListIndex_lookup forty_keys ''A'' {} 0 = Some (False, {}, 0) \<and>
     OffsetIndex_lookup oi ''A'' {} 0 = Some (False, {}, 0) \<and>
     WordListIndex_lookup forty_keys ''E'' {} 0 = Some (False, {}, INVALID_INDEX) \<and>
     OffsetIndex_lookup oi ''E'' {} 0 = Some (False, {}, INVALID_INDEX)"
proof -
  note t = index_lookup_binary_search[rule_format, OF forty_sorted]
  note w1 = t[THEN conjunct1, rule_format, of 32 "{}" 0]
  note w2 = t[THEN conjunct2, THEN conjunct1, rule_format, of 31 "''DB0''" "{}" 0]
  note w3 = t[THEN conjunct2, THEN conjunct2, THEN conjunct1, rule_format, of "''A''" "{}" 0]
  note w4 = t[THEN conjunct2, THEN conjunct2, THEN conjunct2, THEN conjunct1, rule_format, of "''E''" "{}" 0]
  note o = t[THEN conjunct2, THEN conjunct2, THEN conjunct2, THEN conjunct2, THEN mp, OF forty_fit]
  have w1': "WordListIndex_lookup forty_keys ''DC'' {} 0 = Some (True, matching forty_keys ''DC'', 0) \<and>
     32 \<in> matching forty_keys ''DC''"
    using w1 forty_facts(1,2) by auto
  have w2': "WordListIndex_lookup forty_keys ''DB0'' {} 0 = Some (False, {}, 32)"
    using w2 forty_facts(3-7) by simp
  have w3': "WordListIndex_lookup forty_keys ''A'' {} 0 = Some (False, {}, 0)"
    using w3 forty_facts(8) by simp
  have w4': "WordListIndex_lookup forty_keys ''E'' {} 0 = Some (False, {}, INVALID_INDEX)"
    using w4 forty_facts(9) by simp
  from o show ?thesis
  proof (elim exE conjE)
    fix oi
    assume ld: "OffsetIndex_load forty_keys = Some oi"
      and a: "\<forall>i idxs nx. i < length forty_keys \<longrightarrow>
           (\<exists>S. OffsetIndex_lookup oi (forty_keys ! i) idxs nx = Some (True, S, nx) \<and>
                S = idxs \<union> matching forty_keys (forty_keys ! i) \<and> int i \<in> S \<and>
                (\<forall>j \<in> matching forty_keys (forty_keys ! i).
                   0 \<le> j \<and> j < int (length forty_keys) \<and> c_str (forty_keys ! nat j) = c_str (forty_keys ! i)))"
      and b: "\<forall>i w idxs nx. Suc i < length forty_keys \<and>
             stardict_strcmp (forty_keys ! i) w < 0 \<and> stardict_strcmp w (forty_keys ! Suc i) < 0 \<longrightarrow>
           OffsetIndex_lookup oi w idxs nx = Some (False, idxs, int i + 1)"
      and c: "\<forall>w idxs nx. stardict_strcmp w (forty_keys ! 0) < 0 \<longrightarrow>
           OffsetIndex_lookup oi w idxs nx = Some (False, idxs, 0)"
      and d: "\<forall>w idxs nx. stardict_strcmp w (last forty_keys) > 0 \<longrightarrow>
           OffsetIndex_lookup oi w idxs nx = Some (False, idxs, INVALID_INDEX)"
    have a': "OffsetIndex_lookup oi ''DC'' {} 0 = Some (True, matching forty_keys ''DC'', 0)"
      using a[rule_format, of 32 "{}" 0] forty_facts(1,2) by auto
    have b': "OffsetIndex_lookup oi ''DB0'' {} 0 = Some (False, {}, 32)"
      using b[rule_format, of 31 "''DB0''" "{}" 0] forty_facts(3-7) by simp
    have c': "OffsetIndex_lookup oi ''A'' {} 0 = Some (False, {}, 0)"
      using c[rule_format, of "''A''" "{}" 0] forty_facts(8) by simp
    have d': "OffsetIndex_lookup oi ''E'' {} 0 = Some (False, {}, INVALID_INDEX)"
      using d[rule_format, of "''E''" "{}" 0] forty_facts(9) by simp
    from ld a' b' c' d' w1' w2' w3' w4' show ?thesis by (intro exI[of _ oi]) simp
  qed
qed


lemma matching_of_run:
  assumes d: "list_all (\<lambda>d. stardict_strcmp str d = 0) dups"
    and o: "list_all (\<lambda>x. stardict_strcmp str x \<noteq> 0) (pre @ post)"
  shows "matching (pre @ dups @ post) str = {int (length pre) ..< int (length pre + length dups)}"
proof (rule set_eqI)
  fix j :: int
  show "j \<in> matching (pre @ dups @ post) str \<longleftrightarrow> j \<in> {int (length pre) ..< int (length pre + length dups)}"
  proof (cases "0 \<le> j \<and> j < int (length (pre @ dups @ post))")
    case False
    then show ?thesis by (auto simp: matching_def)
  next
    case True
    define i where "i = nat j"
    have j: "j = int i" using True by (simp add: i_def)
    have i: "i < length pre + length dups + length post"
      using True unfolding i_def by (simp add: nat_less_iff)
    consider (pre) "i < length pre" | (dups) "length pre \<le> i" "i < length pre + length dups"
      | (post) "length pre + length dups \<le> i"
      by linarith
    then show ?thesis
    proof cases
      case pre
      then have "(pre @ dups @ post) ! i \<in> set (pre @ post)"
        by (simp add: nth_append)
      with o have "stardict_strcmp str ((pre @ dups @ post) ! i) \<noteq> 0"
        by (auto simp: list_all_iff)
      with pre show ?thesis by (simp add: matching_def j)
    next
      case dups
      then have il: "i - length pre < length dups" by linarith
      have "(pre @ dups @ post) ! i = (dups @ post) ! (i - length pre)"
        using dups(1) by (simp add: nth_append)
      also have "\<dots> = dups ! (i - length pre)"
        using il by (simp add: nth_append)
      finally have "(pre @ dups @ post) ! i = dups ! (i - length pre)" "i - length pre < length dups"
        using il by simp_all
      with d have "stardict_strcmp str ((pre @ dups @ post) ! i) = 0"
        by (simp add: list_all_length)
      with dups i show ?thesis by (simp add: matching_def j)
    next
      case post
      then have il: "i - length pre - length dups < length post"
        and ge: "length pre \<le> i" "length dups \<le> i - length pre"
        using i by linarith+
      have "(pre @ dups @ post) ! i = (dups @ post) ! (i - length pre)"
        using ge(1) by (simp add: nth_append)
      also have "\<dots> = post ! (i - length pre - length dups)"
        using ge(2) by (simp add: nth_append)
      finally have "(pre @ dups @ post) ! i = post ! (i - length pre - length dups)"
        "i - length pre - length dups < length post"
        using il by simp_all
      then have "(pre @ dups @ post) ! i \<in> set (pre @ post)"
        by (metis UnCI nth_mem set_append)
      with o have "stardict_strcmp str ((pre @ dups @ post) ! i) \<noteq> 0"
        by (auto simp: list_all_iff)
      with post show ?thesis by (simp add: matching_def j)
    qed
  qed
qed

text \<open>
  Claim C2. When a sorted index holds a run of entries equal to the query under the
  comparator and no other entry is equal to it, the lookup adds exactly the indices of
  the run to the result set, as many as the run is long: the \<^verbatim>\<open>WordListIndex\<close>
  always, and the \<^verbatim>\<open>OffsetIndex\<close> when the keys are headwords within the limit
  of the file format, so that each fits into \<^verbatim>\<open>wordentry_buf\<close>.
\<close>

theorem lookup_returns_all_duplicates:
  "\<forall>pre dups post str idxs nx.
     index_sorted (pre @ dups @ post) \<and> dups \<noteq> [] \<and>
     list_all (\<lambda>d. stardict_strcmp str d = 0) dups \<and>
     list_all (\<lambda>x. stardict_strcmp str x \<noteq> 0) (pre @ post) \<longrightarrow>
       WordListIndex_lookup (pre @ dups @ post) str idxs nx =
         Some (True, idxs \<union> {int (length pre) ..< int (length pre + length dups)}, nx) \<and>
       (keys_fit (pre @ dups @ post) \<longrightarrow>
          (\<exists>oi. OffsetIndex_load (pre @ dups @ post) = Some oi \<and>
             OffsetIndex_lookup oi str idxs nx =
               Some (True, idxs \<union> {int (length pre) ..< int (length pre + length dups)}, nx))) \<and>
       card {int (length pre) ..< int (length pre + length dups)} = length dups"
proof (intro allI impI)
  fix pre dups post :: "string list" and str :: string and idxs :: "int set" and nx :: int
  assume a: "index_sorted (pre @ dups @ post) \<and> dups \<noteq> [] \<and>
     list_all (\<lambda>d. stardict_strcmp str d = 0) dups \<and>
     list_all (\<lambda>x. stardict_strcmp str x \<noteq> 0) (pre @ post)"
  let ?keys = "pre @ dups @ post"
  let ?run = "{int (length pre) ..< int (length pre + length dups)}"
  from a have s: "index_sorted ?keys" and ne: "?keys \<noteq> []" and dne: "dups \<noteq> []" by simp_all
  have m: "matching ?keys str = ?run"
    using a by (intro matching_of_run) simp_all
  have "?run \<noteq> {}" using dne by simp
  then have sp: "spec_lookup ?keys str idxs nx = (True, idxs \<union> ?run, nx)"
    by (simp add: spec_lookup_def m)
  have w: "WordListIndex_lookup ?keys str idxs nx = Some (True, idxs \<union> ?run, nx)"
    using WordListIndex_lookup_spec[OF s ne, of str idxs nx] by (simp only: sp)
  have o: "\<exists>oi. OffsetIndex_load ?keys = Some oi \<and>
      OffsetIndex_lookup oi str idxs nx = Some (True, idxs \<union> ?run, nx)"
    if fit: "keys_fit ?keys"
    using OffsetIndex_load_keys[OF ne fit] OffsetIndex_lookup_spec[OF s ne fit, of str idxs nx]
    by (simp only: sp) blast
  have c: "card ?run = length dups" by simp
  from w o c show "WordListIndex_lookup ?keys str idxs nx = Some (True, idxs \<union> ?run, nx) \<and>
       (keys_fit ?keys \<longrightarrow>
          (\<exists>oi. OffsetIndex_load ?keys = Some oi \<and>
             OffsetIndex_lookup oi str idxs nx = Some (True, idxs \<union> ?run, nx))) \<and>
       card ?run = length dups"
    by blast
qed

text \<open>
  The theorem at an index whose five equal keys lie on both sides of a page boundary.
\<close>

theorem lookup_returns_all_duplicates_witness:
  "WordListIndex_lookup (thirty_keys @ five_duplicates @ five_more_keys) ''DA'' {} 0 =
     Some (True, {30, 31, 32, 33, 34}, 0) \<and>
   (\<exists>oi. OffsetIndex_load (thirty_keys @ five_duplicates @ five_more_keys) = Some oi \<and>
      OffsetIndex_lookup oi ''DA'' {} 0 = Some (True, {30, 31, 32, 33, 34}, 0))"
proof -
  have "adjacent_sorted (thirty_keys @ five_duplicates @ five_more_keys)"
    by (simp add: thirty_keys_def five_duplicates_def five_more_keys_def cmp_eval)
  then have h1: "index_sorted (thirty_keys @ five_duplicates @ five_more_keys)"
    by (rule adjacent_sorted_index_sorted)
  have h2: "five_duplicates \<noteq> []" by (simp add: five_duplicates_def)
  have h3: "list_all (\<lambda>d. stardict_strcmp ''DA'' d = 0) five_duplicates"
    by (simp add: five_duplicates_def cmp_eval)
  have h4: "list_all (\<lambda>x. stardict_strcmp ''DA'' x \<noteq> 0) (thirty_keys @ five_more_keys)"
    by (simp add: thirty_keys_def five_more_keys_def cmp_eval)
  have h5: "keys_fit (thirty_keys @ five_duplicates @ five_more_keys)"
    by (simp add: keys_fit_def thirty_keys_def five_duplicates_def five_more_keys_def
          strlen_def c_str_def NUL_def sizeof_wordentry_buf_def)
  have run: "{} \<union> {int (length thirty_keys) ..< int (length thirty_keys + length five_duplicates)} =
      {30, 31, 32, 33, 34}"
    by (auto simp: thirty_keys_def five_duplicates_def)
  from lookup_returns_all_duplicates[rule_format, of thirty_keys five_duplicates five_more_keys "''DA''" "{}" 0]
    h1 h2 h3 h4 h5
  show ?thesis unfolding run by blast
qed

section \<open>The full-text search returns the records that hold every needle\<close>

lemma parse_needles_spec:
  "parse_needles p cur acc =
     map_option (\<lambda>ts. acc @ split_tokens ts cur) (data_tokens (c_str p))"
proof (induction p cur acc rule: parse_needles.induct)
  case (1 SearchWord SearchWords)
  show ?case by (simp add: c_str_Nil)
next
  case (2 c p SearchWord SearchWords)
  show ?case
  proof (cases "c = NUL")
    case True
    then show ?thesis by (simp add: c_str_Cons)
  next
    case cn: False
    show ?thesis
    proof (cases "c = bslash")
      case True
      show ?thesis
      proof (cases p)
        case Nil
        with cn True show ?thesis by (simp add: c_str_Cons c_str_Nil)
      next
        case (Cons x p')
        show ?thesis
        proof (cases "x = NUL")
          case True
          with cn \<open>c = bslash\<close> Cons show ?thesis by (simp add: c_str_Cons)
        next
          case False
          with cn \<open>c = bslash\<close> Cons "2.IH"(1)[of x p'] show ?thesis
            by (simp add: c_str_Cons option.map_comp comp_def bslash_def SPACE_def)
        qed
      qed
    next
      case nb: False
      show ?thesis
      proof (cases "c = SPACE")
        case True
        with cn nb "2.IH"(2,3) show ?thesis
          by (cases "c_str p") (auto simp: c_str_Cons option.map_comp comp_def)
      next
        case False
        with cn nb "2.IH"(4) show ?thesis
          by (cases "c_str p") (auto simp: c_str_Cons option.map_comp comp_def)
      qed
    qed
  qed
qed


lemma length_flags_after: "length flags = length ws \<Longrightarrow> length (flags_after ws flags texts) = length ws"
  by (simp add: flags_after_def)

lemma flags_after_Nil: "length flags = length ws \<Longrightarrow> flags_after ws flags [] = flags"
  by (induction ws flags rule: list_induct2') (simp_all add: flags_after_def)

lemma flags_after_append:
  "length flags = length ws \<Longrightarrow>
   flags_after ws (flags_after ws flags a) b = flags_after ws flags (a @ b)"
  by (induction ws flags rule: list_induct2') (auto simp: flags_after_def)

lemma flags_after_Cons:
  "length flags = length ws \<Longrightarrow>
   flags_after ws (flags_after ws flags [a]) b = flags_after ws flags (a # b)"
  using flags_after_append[of flags ws "[a]" b] by simp

lemma flags_after_mono:
  "length flags = length ws \<Longrightarrow> list_all id (flags_after ws flags a) \<Longrightarrow>
   list_all id (flags_after ws flags (a @ b))"
  by (induction ws flags rule: list_induct2') (auto simp: flags_after_def)

lemma ntrue_Cons: "ntrue (f # fs) = (if f then 1 else 0) + ntrue fs"
  by (simp add: ntrue_def)

lemma ntrue_le: "ntrue fs \<le> int (length fs)"
  by (simp add: ntrue_def)

lemma ntrue_all: "ntrue fs = int (length fs) \<longleftrightarrow> list_all id fs"
proof (induction fs)
  case Nil
  show ?case by (simp add: ntrue_def)
next
  case (Cons f fs)
  show ?case
    using Cons ntrue_le[of fs] by (cases f) (auto simp: ntrue_Cons)
qed

lemma mark_found_flags:
  "length flags = length ws \<Longrightarrow>
   mark_found hay ws flags n =
     (flags_after ws flags [hay], n + ntrue (flags_after ws flags [hay]) - ntrue flags)"
proof (induction ws flags arbitrary: n rule: list_induct2')
  case (4 w ws f fs)
  then have len: "length fs = length ws" by simp
  note ih = "4.IH"[OF len]
  show ?case
    by (cases f) (simp_all add: ih flags_after_def ntrue_Cons)
qed (simp_all add: flags_after_def ntrue_def)

lemma mark_found_inv:
  assumes "length flags = length ws" "n = ntrue flags"
  shows "mark_found hay ws flags n =
     (flags_after ws flags [hay], ntrue (flags_after ws flags [hay]))"
  using mark_found_flags[OF assms(1), of hay n] assms(2) by simp

lemma search_type_not_upper: "is_search_type t \<Longrightarrow> \<not> g_ascii_isupper t"
  by (auto simp: is_search_type_def g_ascii_isupper_def byte_def)

lemma c_string_at_text:
  assumes "NUL \<notin> set s" "drop off data = s @ NUL # rest"
  shows "c_string_at data off = Some s"
proof -
  have "takeWhile (\<lambda>c. c \<noteq> NUL) (s @ NUL # rest) = s"
    using assms(1) by (induction s) auto
  then show ?thesis by (simp add: c_string_at_def c_str_def assms(2))
qed

lemma drop_more: "drop off data = a @ b \<Longrightarrow> drop (off + length a) data = b"
proof -
  assume d: "drop off data = a @ b"
  have "drop (off + length a) data = drop (length a) (drop off data)"
    by (simp add: add.commute)
  then show ?thesis by (simp add: d)
qed

lemma binary_sec_size_field:
  assumes "length prefix = 4" "g prefix = length bytes" "length bytes + 4 < 2 ^ 32"
    and d: "drop off data = prefix @ bytes @ rest"
  shows "binary_sec_size g data off = Some (4 + length bytes)"
proof -
  have "(length bytes + 4) mod 2 ^ 32 = length bytes + 4"
    using assms(3) by simp
  moreover have "length (drop off data) \<ge> 4"
    unfolding d using assms(1) by simp
  then have "off + 4 \<le> length data" by simp
  moreover have "take 4 (drop off data) = prefix"
    unfolding d using assms(1) by simp
  ultimately show ?thesis
    using assms(2) by (simp add: binary_sec_size_def add.commute)
qed

lemma head_step_skip_text:
  "\<not> is_search_type t \<Longrightarrow> \<not> g_ascii_isupper t \<Longrightarrow> c_string_at data off = Some s \<Longrightarrow>
   search_head_fields g ws (t # ts) data off flags n =
     search_head_fields g ws ts data (off + (length s + 1)) flags n"
  by simp

lemma head_step_search_text:
  "is_search_type t \<Longrightarrow> \<not> list_all id flags \<Longrightarrow> c_string_at data off = Some s \<Longrightarrow>
   mark_found s ws flags n = (flags', n') \<Longrightarrow>
   search_head_fields g ws (t # ts) data off flags n =
     (if n' = int (length ws) then Some (Inl True)
      else search_head_fields g ws ts data (off + (length s + 1)) flags' n')"
  by simp

lemma head_step_binary:
  "\<not> is_search_type t \<Longrightarrow> g_ascii_isupper t \<Longrightarrow> binary_sec_size g data off = Some k \<Longrightarrow>
   search_head_fields g ws (t # ts) data off flags n = search_head_fields g ws ts data (off + k) flags n"
  by simp

lemma search_head_fields_wf:
  "list_all2 (wf_head g) ts fs \<Longrightarrow> length flags = length ws \<Longrightarrow> n = ntrue flags \<Longrightarrow>
   \<not> list_all id flags \<Longrightarrow> length data < 2 ^ 32 \<Longrightarrow>
   drop off data = concat (map encode_head fs) @ rest \<Longrightarrow>
   search_head_fields g ws ts data off flags n =
     (if list_all id (flags_after ws flags (searched_texts ts fs)) then Some (Inl True)
      else Some (Inr (off + length (concat (map encode_head fs)),
                      flags_after ws flags (searched_texts ts fs),
                      ntrue (flags_after ws flags (searched_texts ts fs)))))"
proof (induction ts fs arbitrary: flags n off rule: list_all2_induct)
  case Nil
  then show ?case by (simp add: flags_after_Nil)
next
  case (Cons t ts f fs)
  note len = Cons.prems(1) and n = Cons.prems(2) and nall = Cons.prems(3)
    and small = Cons.prems(4) and dat = Cons.prems(5)
  define tail where "tail = concat (map encode_head fs) @ rest"
  have dat': "drop off data = encode_head f @ tail"
    using dat by (simp add: tail_def)
  have nxt: "drop (off + length (encode_head f)) data = concat (map encode_head fs) @ rest"
    using drop_more[OF dat'] by (simp add: tail_def)
  have total: "off + length (concat (map encode_head (f # fs))) =
      off + length (encode_head f) + length (concat (map encode_head fs))"
    by simp
  show ?case
  proof (cases f)
    case (Text s)
    with Cons.hyps(1) have nu: "\<not> g_ascii_isupper t" and nn: "NUL \<notin> set s" by simp_all
    have le: "length (encode_head f) = length s + 1" using Text by simp
    have cs: "c_string_at data off = Some s"
      using c_string_at_text[OF nn, of off data tail] dat' Text by simp
    have dr: "drop (off + (length s + 1)) data = concat (map encode_head fs) @ rest"
      using nxt unfolding le .
    show ?thesis
    proof (cases "is_search_type t")
      case False
      have tx: "searched_texts (t # ts) (f # fs) = searched_texts ts fs"
        using Text False by simp
      show ?thesis
        unfolding head_step_skip_text[OF False nu cs] tx total le
        by (rule Cons.IH[OF len n nall small dr])
    next
      case st: True
      define flags' where "flags' = flags_after ws flags [s]"
      have mf: "mark_found s ws flags n = (flags', ntrue flags')"
        unfolding flags'_def by (rule mark_found_inv[OF len n])
      have len': "length flags' = length ws"
        unfolding flags'_def by (rule length_flags_after[OF len])
      have texts: "searched_texts (t # ts) (f # fs) = s # searched_texts ts fs"
        using Text st by simp
      show ?thesis
      proof (cases "list_all id flags'")
        case True
        then have "ntrue flags' = int (length ws)"
          using ntrue_all[of flags'] len' by simp
        moreover have "list_all id (flags_after ws flags (s # searched_texts ts fs))"
          using flags_after_mono[OF len, of "[s]" "searched_texts ts fs"] True
          by (simp add: flags'_def)
        ultimately show ?thesis
          unfolding head_step_search_text[OF st nall cs mf] texts by (simp add: id_def)
      next
        case False
        then have ne: "ntrue flags' \<noteq> int (length ws)"
          using ntrue_all[of flags'] len' by simp
        have ih: "search_head_fields g ws ts data (off + (length s + 1)) flags' (ntrue flags') =
          (if list_all id (flags_after ws flags' (searched_texts ts fs)) then Some (Inl True)
           else Some (Inr (off + (length s + 1) + length (concat (map encode_head fs)),
                      flags_after ws flags' (searched_texts ts fs),
                      ntrue (flags_after ws flags' (searched_texts ts fs)))))"
          by (rule Cons.IH[OF len' refl False small dr])
        have fa: "flags_after ws flags' (searched_texts ts fs) =
            flags_after ws flags (s # searched_texts ts fs)"
          unfolding flags'_def by (rule flags_after_Cons[OF len])
        show ?thesis
          unfolding head_step_search_text[OF st nall cs mf] texts ih fa total le
          using ne by (simp add: id_def)
      qed
    qed
  next
    case (Binary prefix bytes)
    with Cons.hyps(1) have up: "g_ascii_isupper t" and b: "length prefix = 4"
      "be_uint32 prefix = length bytes" "g prefix = be_uint32 prefix" by simp_all
    have nst: "\<not> is_search_type t" using up search_type_not_upper by blast
    have le: "length (encode_head f) = 4 + length bytes" using Binary b(1) by simp
    have "length (drop off data) \<le> length data" by simp
    then have "length (encode_head f) \<le> length data"
      unfolding dat' by simp
    then have sm: "length bytes + 4 < 2 ^ 32" using small le by simp
    have gp: "g prefix = length bytes" using b(2,3) by simp
    have dat'': "drop off data = prefix @ bytes @ tail"
      using dat' Binary by simp
    have bs: "binary_sec_size g data off = Some (4 + length bytes)"
      using b(1) gp sm dat'' by (rule binary_sec_size_field)
    have dr: "drop (off + (4 + length bytes)) data = concat (map encode_head fs) @ rest"
      using nxt unfolding le .
    have tx: "searched_texts (t # ts) (f # fs) = searched_texts ts fs"
      using Binary by simp
    show ?thesis
      unfolding head_step_binary[OF nst up bs] tx total le
      by (rule Cons.IH[OF len n nall small dr])
  qed
qed


lemma searched_texts_snoc:
  "length ts = length fs \<Longrightarrow>
   searched_texts (ts @ [t]) (fs @ [f]) = searched_texts ts fs @ searched_texts [t] [f]"
proof (induction ts fs rule: list_induct2)
  case Nil
  show ?case by simp
next
  case (Cons x xs y ys)
  then show ?case by (cases y) simp_all
qed

lemma list_all_flags_after_init:
  "list_all id (flags_after ws (replicate (length ws) False) texts) \<longleftrightarrow>
   list_all (\<lambda>w. list_ex (\<lambda>txt. strstr txt (c_str w)) texts) ws"
  by (induction ws) (simp_all add: flags_after_def)

lemma strstr_Nil [simp]: "strstr hay []"
  by (cases hay) simp_all

lemma strstr_length: "strstr hay needle \<Longrightarrow> length needle \<le> length hay"
proof (induction hay)
  case Nil
  then show ?case by simp
next
  case (Cons h hs)
  then show ?case
    by (auto simp del: take_Suc_Cons dest: arg_cong[where f = length])
qed

lemma length_c_str_le: "length (c_str s) \<le> length s"
  unfolding c_str_def by (rule length_takeWhile_le)

lemma g_strstr_len_whole:
  "g_strstr_len (Some h) (length h) needle = Some (strstr (c_str h) needle)"
proof (cases "needle = []")
  case True
  then show ?thesis by (simp add: g_strstr_len_def)
next
  case ne: False
  show ?thesis
  proof (cases "length h < length needle")
    case True
    have "\<not> strstr (c_str h) needle"
      using strstr_length[of "c_str h" needle] length_c_str_le[of h] True by auto
    with ne True show ?thesis by (simp add: g_strstr_len_def)
  next
    case False
    with ne show ?thesis by (simp add: g_strstr_len_def)
  qed
qed

lemma mark_found_len_whole:
  "mark_found_len (Some h) (length h) ws flags n = Some (mark_found (c_str h) ws flags n)"
proof (induction "c_str h" ws flags n rule: mark_found.induct)
  case (1 w ws f fs nfound)
  show ?case
  proof (cases f)
    case True
    then show ?thesis using 1(2) by (simp split: prod.splits)
  next
    case False
    show ?thesis
    proof (cases "strstr (c_str h) (c_str w)")
      case True
      with False show ?thesis using 1(1) by (simp add: g_strstr_len_whole split: prod.splits)
    next
      case nf: False
      with False show ?thesis using 1(2) by (simp add: g_strstr_len_whole split: prod.splits)
    qed
  qed
qed simp_all

lemma search_with_sequence_wf:
  assumes wf: "wf_record g seq flds" and ne: "ws \<noteq> []"
  shows "search_with_sequence g seq ws (encode_record flds) = Some (record_matches seq ws flds)"
proof -
  define ts where "ts = butlast seq"
  define t where "t = last seq"
  define fs where "fs = butlast flds"
  define f where "f = last flds"
  define init where "init = replicate (length ws) False"
  define data where "data = encode_record flds"
  define heads where "heads = concat (map encode_head fs)"
  from wf have sne: "seq \<noteq> []" and hd: "list_all2 (wf_head g) ts fs"
    and len: "length flds = length seq" and l: "wf_last t f"
    and small: "length data < 2 ^ 32"
    by (simp_all add: wf_record_def ts_def t_def fs_def f_def data_def)
  have fne: "flds \<noteq> []" using sne len by auto
  have seq: "seq = ts @ [t]" using sne by (simp add: ts_def t_def)
  have flds: "flds = fs @ [f]" using fne by (simp add: fs_def f_def)
  have lts: "length ts = length fs" using hd by (rule list_all2_lengthD)
  have li: "length init = length ws" by (simp add: init_def)
  have n0: "0 = ntrue init" by (simp add: init_def ntrue_def)
  have nall: "\<not> list_all id init" using ne by (cases ws) (simp_all add: init_def)
  have dat: "data = heads @ encode_last f"
    by (simp add: data_def encode_record_def heads_def fs_def f_def)
  have d0: "drop 0 data = concat (map encode_head fs) @ encode_last f"
    using dat by (simp add: heads_def)
  define mid where "mid = flags_after ws init (searched_texts ts fs)"
  have lm: "length mid = length ws" unfolding mid_def by (rule length_flags_after[OF li])
  have h: "search_head_fields g ws ts data 0 init 0 =
     (if list_all id mid then Some (Inl True) else Some (Inr (length heads, mid, ntrue mid)))"
    using search_head_fields_wf[OF hd li n0 nall small d0] by (simp add: mid_def heads_def)
  have texts: "searched_texts seq flds = searched_texts ts fs @ searched_texts [t] [f]"
    unfolding seq flds by (rule searched_texts_snoc[OF lts])
  have rm: "record_matches seq ws flds \<longleftrightarrow>
      list_all id (flags_after ws init (searched_texts ts fs @ searched_texts [t] [f]))"
    unfolding record_matches_def texts init_def list_all_flags_after_init ..
  have unfold: "search_with_sequence g seq ws (encode_record flds) =
      (case search_head_fields g ws ts data 0 init 0 of
        None \<Rightarrow> None
      | Some (Inl b) \<Rightarrow> Some b
      | Some (Inr (off, WordFind, nfound)) \<Rightarrow>
          if is_search_type t
          then (let sec_size = nat ((int (length data) - int off) mod 2 ^ 32)
                in case mark_found_len (if off \<le> length data then Some (drop off data) else None)
                          sec_size ws WordFind nfound of
                     None \<Rightarrow> None
                   | Some (WordFind', nfound') \<Rightarrow> Some (nfound' = int (length ws)))
          else Some False)"
    unfolding search_with_sequence_def ts_def t_def init_def data_def ..
  have off: "length heads \<le> length data" "drop (length heads) data = encode_last f"
    by (simp_all add: dat)
  have "(int (length data) - int (length heads)) mod 2 ^ 32 = int (length (encode_last f))"
    using small by (simp add: dat)
  then have sz: "nat ((int (length data) - int (length heads)) mod 4294967296) = length (encode_last f)"
    by simp
  show ?thesis
  proof (cases "list_all id mid")
    case True
    then have "record_matches seq ws flds"
      unfolding rm using flags_after_mono[OF li, of "searched_texts ts fs" "searched_texts [t] [f]"]
      by (simp add: mid_def)
    with True show ?thesis unfolding unfold h by simp
  next
    case False
    show ?thesis
    proof (cases "is_search_type t")
      case st: True
      then have "\<not> g_ascii_isupper t" by (rule search_type_not_upper)
      with l obtain s where f: "f = Text s" and nn: "NUL \<notin> set s"
        by (cases f) simp_all
      have cs: "c_str (encode_last f) = s" using f nn by (simp add: c_str_id)
      have mf: "mark_found s ws mid (ntrue mid) =
          (flags_after ws mid [s], ntrue (flags_after ws mid [s]))"
        by (rule mark_found_inv[OF lm refl])
      have ml: "mark_found_len (Some (encode_last f)) (length (encode_last f)) ws mid (ntrue mid) =
          Some (flags_after ws mid [s], ntrue (flags_after ws mid [s]))"
        unfolding mark_found_len_whole cs mf ..
      have fa: "flags_after ws mid [s] = flags_after ws init (searched_texts ts fs @ searched_texts [t] [f])"
        unfolding mid_def using flags_after_append[OF li, of "searched_texts ts fs" "[s]"] f st
        by simp
      have "ntrue (flags_after ws mid [s]) = int (length ws) \<longleftrightarrow> record_matches seq ws flds"
        unfolding rm fa[symmetric]
        using ntrue_all[of "flags_after ws mid [s]"] length_flags_after[OF lm, of "[s]"] by simp
      then show ?thesis
        unfolding unfold h using False st by (simp add: off sz ml)
    next
      case nst: False
      have "searched_texts [t] [f] = []"
        using nst by (cases f) simp_all
      then have "\<not> record_matches seq ws flds"
        unfolding rm using False by (simp add: mid_def)
      then show ?thesis
        unfolding unfold h using False nst by simp
    qed
  qed
qed


lemma SearchData_wf:
  assumes "wf_record g seq flds" "ws \<noteq> []"
  shows "SearchData plain False g seq ws (encode_record flds) = Some (record_matches seq ws flds)"
proof -
  from assms(1) have "seq \<noteq> []" "encode_record flds \<noteq> []" by (simp_all add: wf_record_def)
  then show ?thesis
    using search_with_sequence_wf[OF assms] by (simp add: SearchData_def)
qed

lemma search_articles_wf:
  assumes "ws \<noteq> []"
  shows "list_all (\<lambda>(key, flds). wf_record g seq flds) arts \<Longrightarrow>
    \<exists>m'. search_articles g seq plain ws m (map (\<lambda>(key, flds). (key, encode_record flds)) arts) =
      Some (map fst (filter (\<lambda>(key, flds). record_matches seq ws flds) arts), m')"
proof (induction arts arbitrary: m)
  case Nil
  show ?case by simp
next
  case (Cons a arts)
  obtain key flds where a: "a = (key, flds)" by (cases a)
  from Cons.prems a have wf: "wf_record g seq flds"
    and rest: "list_all (\<lambda>(key, flds). wf_record g seq flds) arts" by simp_all
  define m1 where "m1 = (if length (encode_record flds) > m then length (encode_record flds) else m)"
  from wf have "encode_record flds \<noteq> []" by (simp add: wf_record_def)
  then have nz: "(m1 = 0) = False" by (cases "encode_record flds") (auto simp: m1_def)
  from Cons.IH[OF rest, of m1] obtain m' where
    ih: "search_articles g seq plain ws m1 (map (\<lambda>(key, flds). (key, encode_record flds)) arts) =
      Some (map fst (filter (\<lambda>(key, flds). record_matches seq ws flds) arts), m')"
    by blast
  have "search_articles g seq plain ws m (map (\<lambda>(key, flds). (key, encode_record flds)) (a # arts)) =
      Some (map fst (filter (\<lambda>(key, flds). record_matches seq ws flds) (a # arts)), m')"
    using SearchData_wf[OF wf assms, of plain] ih
    by (simp add: a m1_def[symmetric] Let_def nz)
  then show ?case by blast
qed

lemma search_dicts_wf:
  assumes "ws \<noteq> []"
  shows "list_all (wf_dict g) ds \<Longrightarrow>
    search_dicts cs g ws m (map on_disk ds) =
      Some (map (\<lambda>d. if cs (on_disk d) then matching_keys ws d else []) ds)"
proof (induction ds arbitrary: m)
  case Nil
  show ?case by simp
next
  case (Cons d ds)
  from Cons.prems have rest: "list_all (wf_dict g) ds" and wfd: "wf_dict g d" by simp_all
  from wfd have wf: "list_all (\<lambda>(key, flds). wf_record g (sd_sametypesequence d) flds) (sd_articles d)"
    by (simp add: wf_dict_def)
  obtain m' where a: "search_articles g (dd_sametypesequence (on_disk d)) (dd_dictfile (on_disk d)) ws m
        (dd_articles (on_disk d)) = Some (matching_keys ws d, m')"
    using search_articles_wf[OF assms wf, of "sd_dictfile d" m]
    by (auto simp: on_disk_def matching_keys_def)
  show ?case
    using Cons.IH[OF rest] by (simp add: a)
qed

lemma parse_needles_spec_needles: "parse_needles q [] [] = spec_needles (c_str q)"
  by (simp add: parse_needles_spec spec_needles_def)

lemma list_ex_results:
  "list_ex (\<lambda>res. res \<noteq> []) (map (\<lambda>d. if cs (on_disk d) then matching_keys ws d else []) ds) =
   list_ex (\<lambda>d. cs (on_disk d) \<and> matching_keys ws d \<noteq> []) ds"
  by (induction ds) simp_all

text \<open>
  Claim C5, as the code has it. The needles of a query are its runs of bytes between
  unescaped space bytes (a tab or a line feed is part of a needle), with a backslash
  and the byte after it read as one literal byte (a space, a backslash, a tab for
  \<^verbatim>\<open>t\<close>, a line feed for \<^verbatim>\<open>n\<close>, the byte itself otherwise). On a record that is
  well-formed under a \<^verbatim>\<open>sametypesequence\<close> and not empty, with every length prefix
  of a binary field before the last one a big-endian number that \<^verbatim>\<open>get_uint32\<close>
  reads as such, \<^verbatim>\<open>SearchData\<close> is true exactly when every needle occurs in a
  field of one of the types \<^verbatim>\<open>m t y l g x k\<close>. So for dictionaries with a schema
  and such records \<^verbatim>\<open>LookupData\<close> returns, for every dictionary with the
  data-search capability, the keys of exactly those records, and true when there is
  one. A query without needles yields false.
\<close>

theorem LookupData_finds_matching_records:
  "(\<forall>q. parse_needles q [] [] = spec_needles (c_str q)) \<and>
   (\<forall>plain g seq flds ws. wf_record g seq flds \<and> ws \<noteq> [] \<longrightarrow>
      SearchData plain False g seq ws (encode_record flds) = Some (record_matches seq ws flds)) \<and>
   (\<forall>cs g ds q ws. list_all (wf_dict g) ds \<and> spec_needles (c_str q) = Some ws \<and> ws \<noteq> [] \<longrightarrow>
      LookupData cs g (map on_disk ds) q =
        Some (list_ex (\<lambda>d. cs (on_disk d) \<and> matching_keys ws d \<noteq> []) ds,
              map (\<lambda>d. if cs (on_disk d) then matching_keys ws d else []) ds)) \<and>
   (\<forall>cs g oLib q. spec_needles (c_str q) = Some [] \<longrightarrow>
      LookupData cs g oLib q = Some (False, map (\<lambda>lib. []) oLib))"
proof -
  have a: "\<forall>q. parse_needles q [] [] = spec_needles (c_str q)"
    by (simp add: parse_needles_spec_needles)
  have b: "\<forall>plain g seq flds ws. wf_record g seq flds \<and> ws \<noteq> [] \<longrightarrow>
      SearchData plain False g seq ws (encode_record flds) = Some (record_matches seq ws flds)"
    using SearchData_wf by blast
  have c: "LookupData cs g (map on_disk ds) q =
        Some (list_ex (\<lambda>d. cs (on_disk d) \<and> matching_keys ws d \<noteq> []) ds,
              map (\<lambda>d. if cs (on_disk d) then matching_keys ws d else []) ds)"
    if "list_all (wf_dict g) ds \<and> spec_needles (c_str q) = Some ws \<and> ws \<noteq> []" for cs g ds q ws
  proof -
    from that have wf: "list_all (wf_dict g) ds" and p: "parse_needles q [] [] = Some ws"
      and ne: "ws \<noteq> []" by (simp_all add: parse_needles_spec_needles)
    show ?thesis
      using ne by (simp add: LookupData_def p search_dicts_wf[OF ne wf] list_ex_results)
  qed
  have d: "\<forall>cs g oLib q. spec_needles (c_str q) = Some [] \<longrightarrow>
      LookupData cs g oLib q = Some (False, map (\<lambda>lib. []) oLib)"
    by (simp add: LookupData_def parse_needles_spec_needles)
  from a b c d show ?thesis by blast
qed

text \<open>
  The theorem at the query \<^verbatim>\<open>hello world\<close>, two needles, on a little-endian host
  with the first and the third dictionary, and on a big-endian host with all three: one
  record in each dictionary holds both needles in a searched field.
\<close>

lemma example_dicts_wf:
  "list_all (wf_dict le_uint32) [first_dict, third_dict]"
  "list_all (wf_dict be_uint32) [first_dict, second_dict, third_dict]"
  by (simp_all add: wf_dict_def first_dict_def second_dict_def third_dict_def wf_record_def
      encode_record_def be_uint32_def NUL_def g_ascii_isupper_def byte_def)

lemma example_needles: "spec_needles (c_str ''hello world'') = Some [''hello'', ''world'']"
  by (simp add: spec_needles_def c_str_def NUL_def bslash_def SPACE_def)

lemma example_matches:
  "matching_keys [''hello'', ''world''] first_dict = [''greeting'']"
  "matching_keys [''hello'', ''world''] second_dict = [''salute'']"
  "matching_keys [''hello'', ''world''] third_dict = [''sound'']"
  by (simp_all add: matching_keys_def first_dict_def second_dict_def third_dict_def
      record_matches_def is_search_type_def c_str_def NUL_def)

theorem LookupData_finds_matching_records_witness:
  "LookupData (\<lambda>lib. True) le_uint32 (map on_disk [first_dict, third_dict]) ''hello world'' =
     Some (True, [[''greeting''], [''sound'']]) \<and>
   LookupData (\<lambda>lib. True) be_uint32 (map on_disk [first_dict, second_dict, third_dict]) ''hello world'' =
     Some (True, [[''greeting''], [''salute''], [''sound'']])"
proof -
  have h: "list_all (wf_dict le_uint32) [first_dict, third_dict] \<and>
      spec_needles (c_str ''hello world'') = Some [''hello'', ''world''] \<and> [''hello'', ''world''] \<noteq> []"
    using example_dicts_wf(1) example_needles by simp
  have k: "list_all (wf_dict be_uint32) [first_dict, second_dict, third_dict] \<and>
      spec_needles (c_str ''hello world'') = Some [''hello'', ''world''] \<and> [''hello'', ''world''] \<noteq> []"
    using example_dicts_wf(2) example_needles by simp
  note t = LookupData_finds_matching_records[THEN conjunct2, THEN conjunct2, THEN conjunct1,
      rule_format, of le_uint32 "[first_dict, third_dict]" "''hello world''" "[''hello'', ''world'']"
      "\<lambda>lib. True", OF h]
  note u = LookupData_finds_matching_records[THEN conjunct2, THEN conjunct2, THEN conjunct1,
      rule_format, of be_uint32 "[first_dict, second_dict, third_dict]" "''hello world''"
      "[''hello'', ''world'']" "\<lambda>lib. True", OF k]
  show ?thesis
    unfolding t u by (simp add: example_matches)
qed

text \<open>
  What the theorem leaves out: on a little-endian host the length prefix 2 of the second
  dictionary is read as \<open>2 * 2 ^ 24\<close>, the pointer leaves the record, and the search
  of the text that should follow reads outside of it.
\<close>

lemma little_endian_host_misreads_prefix:
  "le_uint32 [CHR 0x00, CHR 0x00, CHR 0x00, CHR 0x02] = 2 * 2 ^ 24 \<and>
   be_uint32 [CHR 0x00, CHR 0x00, CHR 0x00, CHR 0x02] = 2 \<and>
   LookupData (\<lambda>lib. True) le_uint32 (map on_disk [second_dict]) ''hello world'' = None"
  by (simp add: LookupData_def SearchData_def search_with_sequence_def binary_sec_size_def
      g_strstr_len_def c_string_at_def on_disk_def second_dict_def encode_record_def le_uint32_def be_uint32_def
      is_search_type_def g_ascii_isupper_def byte_def c_str_def NUL_def bslash_def SPACE_def)

text \<open>
  Claim C5 as stated fails. A tab does not separate needles. A lone backslash at the end
  of the query makes the parser read behind the string. And in a dictionary without a
  \<^verbatim>\<open>sametypesequence\<close> the search starts at the type byte of a field, so that the
  needle \<^verbatim>\<open>mh\<close> finds the record whose only text is \<^verbatim>\<open>hello\<close>.
\<close>

theorem LookupData_not_as_claimed:
  "parse_needles (''a'' @ [TAB] @ ''b'') [] [] = Some [''a'' @ [TAB] @ ''b''] \<and>
   parse_needles (''a'' @ [TAB] @ ''b'') [] [] \<noteq> Some [''a'', ''b''] \<and>
   parse_needles (''a'' @ [bslash]) [] [] = None \<and>
   LookupData (\<lambda>lib. True) le_uint32
     [\<lparr> dd_sametypesequence = [], dd_dictfile = True,
        dd_articles = [(''word'', ''mhello'' @ [NUL])] \<rparr>] ''mh'' =
     Some (True, [[''word'']]) \<and>
   \<not> strstr ''hello'' ''mh''"
  by (simp add: LookupData_def SearchData_def search_tagged_fields.simps c_string_at_def
      is_search_type_def c_str_def NUL_def bslash_def SPACE_def TAB_def)

section \<open>The fuzzy lookup\<close>

subsection \<open>The capped distance and the Levenshtein distance\<close>

lemma next_row_cells_nil [simp]: "next_row_cells c [] prev left = []"
  by (cases prev) simp_all

lemma next_row_cells_correct:
  "i < length s \<Longrightarrow> j \<le> length t \<Longrightarrow>
   next_row_cells (s ! i) (drop j t) (map (\<lambda>k. int (lev_cell s t i k)) [j..<Suc (length t)])
       (int (lev_cell s t (Suc i) j))
     = map (\<lambda>k. int (lev_cell s t (Suc i) k)) [Suc j..<Suc (length t)]"
proof (induction "length t - j" arbitrary: j)
  case 0
  then have "j = length t" by simp
  then show ?case by simp
next
  case (Suc n)
  then have lt: "j < length t" by simp
  have d: "drop j t = t ! j # drop (Suc j) t"
    using lt by (simp add: Cons_nth_drop_Suc)
  have u1: "[j..<Suc (length t)] = j # [Suc j..<Suc (length t)]"
    using lt by (simp add: upt_conv_Cons)
  have u2: "[Suc j..<Suc (length t)] = Suc j # [Suc (Suc j)..<Suc (length t)]"
    using lt by (simp add: upt_conv_Cons)
  have n: "n = length t - Suc j" using Suc.hyps(2) by simp
  have le: "Suc j \<le> length t" using lt by simp
  have ih: "next_row_cells (s ! i) (drop (Suc j) t)
              (map (\<lambda>k. int (lev_cell s t i k)) [Suc j..<Suc (length t)])
              (int (lev_cell s t (Suc i) (Suc j)))
            = map (\<lambda>k. int (lev_cell s t (Suc i) k)) [Suc (Suc j)..<Suc (length t)]"
    by (rule Suc.hyps(1)[OF n Suc.prems(1) le])
  have cell: "min (min (int (lev_cell s t i (Suc j)) + 1) (int (lev_cell s t (Suc i) j) + 1))
                  (int (lev_cell s t i j) + (if s ! i = t ! j then 0 else 1))
              = int (lev_cell s t (Suc i) (Suc j))"
    by (simp add: min_def)
  have ih': "next_row_cells (s ! i) (drop (Suc j) t)
              (int (lev_cell s t i (Suc j))
                 # map (\<lambda>k. int (lev_cell s t i k)) [Suc (Suc j)..<Suc (length t)])
              (int (lev_cell s t (Suc i) (Suc j)))
            = map (\<lambda>k. int (lev_cell s t (Suc i) k)) [Suc (Suc j)..<Suc (length t)]"
    using ih by (simp only: u2 list.map)
  have "next_row_cells (s ! i) (drop j t) (map (\<lambda>k. int (lev_cell s t i k)) [j..<Suc (length t)])
          (int (lev_cell s t (Suc i) j))
        = next_row_cells (s ! i) (t ! j # drop (Suc j) t)
            (int (lev_cell s t i j) # int (lev_cell s t i (Suc j))
               # map (\<lambda>k. int (lev_cell s t i k)) [Suc (Suc j)..<Suc (length t)])
            (int (lev_cell s t (Suc i) j))"
    by (simp only: d u1 u2 list.map)
  also have "\<dots> = int (lev_cell s t (Suc i) (Suc j))
                 # next_row_cells (s ! i) (drop (Suc j) t)
                     (int (lev_cell s t i (Suc j))
                        # map (\<lambda>k. int (lev_cell s t i k)) [Suc (Suc j)..<Suc (length t)])
                     (int (lev_cell s t (Suc i) (Suc j)))"
    by (simp only: next_row_cells.simps cell Let_def)
  also have "\<dots> = int (lev_cell s t (Suc i) (Suc j))
                 # map (\<lambda>k. int (lev_cell s t (Suc i) k)) [Suc (Suc j)..<Suc (length t)]"
    by (simp only: ih')
  also have "\<dots> = map (\<lambda>k. int (lev_cell s t (Suc i) k)) [Suc j..<Suc (length t)]"
    by (simp only: u2 list.map)
  finally show ?case .
qed


lemma lev_cell_0 [simp]: "lev_cell s t i 0 = i"
  by (cases i) simp_all

lemma next_row_correct:
  assumes "i < length s"
  shows "next_row (s ! i) t (lev_row s t i) = lev_row s t (Suc i)"
proof -
  have u: "[0..<Suc (length t)] = 0 # [Suc 0..<Suc (length t)]"
    by (simp only: upt_conv_Cons zero_less_Suc)
  have h: "hd (lev_row s t i) + 1 = int (lev_cell s t (Suc i) 0)"
    unfolding lev_row_def u by simp
  have c: "next_row_cells (s ! i) t (lev_row s t i) (int (lev_cell s t (Suc i) 0))
           = map (\<lambda>k. int (lev_cell s t (Suc i) k)) [Suc 0..<Suc (length t)]"
    using next_row_cells_correct[OF assms, of 0 t] unfolding lev_row_def by simp
  show ?thesis
    unfolding next_row_def h c unfolding lev_row_def u by (simp only: list.map)
qed

lemma lev_row_mono:
  "\<forall>k\<le>length t. limit \<le> int (lev_cell s t i k) \<Longrightarrow> k \<le> length t \<Longrightarrow>
   limit \<le> int (lev_cell s t (Suc i) k)"
proof (induction k)
  case 0
  then have "limit \<le> int (lev_cell s t i 0)" by blast
  then show ?case by simp
next
  case (Suc k)
  have a: "limit \<le> int (lev_cell s t i (Suc k))" using Suc.prems by blast
  have b: "limit \<le> int (lev_cell s t i k)" using Suc.prems by simp
  have c: "limit \<le> int (lev_cell s t (Suc i) k)" using Suc by simp
  show ?case using a b c by (simp add: min_def)
qed

lemma lev_rows_mono:
  "i \<le> i' \<Longrightarrow> \<forall>k\<le>length t. limit \<le> int (lev_cell s t i k) \<Longrightarrow>
   \<forall>k\<le>length t. limit \<le> int (lev_cell s t i' k)"
proof (induction i' rule: dec_induct)
  case base
  then show ?case by simp
next
  case (step n)
  then show ?case using lev_row_mono[of t limit s n] by blast
qed

lemma lev_row_all:
  "list_all (\<lambda>cell. \<not> cell < limit) (lev_row s t i) = (\<forall>k\<le>length t. limit \<le> int (lev_cell s t i k))"
  unfolding lev_row_def list_all_iff by (auto simp: not_less less_Suc_eq_le)

lemma lev_row_last: "last (lev_row s t i) = int (lev_cell s t i (length t))"
  unfolding lev_row_def by (simp add: last_map)

lemma edit_rows_below_limit:
  "i \<le> length s \<Longrightarrow> edit_rows (drop i s) t (lev_row s t i) limit < limit \<Longrightarrow>
   edit_rows (drop i s) t (lev_row s t i) limit = int (levenshtein s t)"
proof (induction "length s - i" arbitrary: i)
  case 0
  then have "drop i s = []" "i = length s" by simp_all
  then show ?case by (simp add: lev_row_last levenshtein_def)
next
  case (Suc n)
  then have lt: "i < length s" by simp
  have d: "drop i s = s ! i # drop (Suc i) s"
    using lt by (simp add: Cons_nth_drop_Suc)
  have n: "n = length s - Suc i" using Suc.hyps(2) by simp
  have e: "edit_rows (drop i s) t (lev_row s t i) limit =
             (if list_all (\<lambda>cell. \<not> cell < limit) (lev_row s t (Suc i)) then limit
              else edit_rows (drop (Suc i) s) t (lev_row s t (Suc i)) limit)"
    unfolding d by (simp add: next_row_correct[OF lt] Let_def)
  show ?case
  proof (cases "list_all (\<lambda>cell. \<not> cell < limit) (lev_row s t (Suc i))")
    case True
    then show ?thesis using Suc.prems(2) e by simp
  next
    case False
    then have e': "edit_rows (drop i s) t (lev_row s t i) limit =
                   edit_rows (drop (Suc i) s) t (lev_row s t (Suc i)) limit"
      using e by simp
    show ?thesis
      unfolding e' using Suc.hyps(1)[OF n] lt Suc.prems(2) e' by simp
  qed
qed

lemma edit_rows_exact:
  "i \<le> length s \<Longrightarrow> int (levenshtein s t) < limit \<Longrightarrow>
   edit_rows (drop i s) t (lev_row s t i) limit = int (levenshtein s t)"
proof (induction "length s - i" arbitrary: i)
  case 0
  then have "drop i s = []" "i = length s" by simp_all
  then show ?case by (simp add: lev_row_last levenshtein_def)
next
  case (Suc n)
  then have lt: "i < length s" by simp
  have d: "drop i s = s ! i # drop (Suc i) s"
    using lt by (simp add: Cons_nth_drop_Suc)
  have n: "n = length s - Suc i" using Suc.hyps(2) by simp
  have e: "edit_rows (drop i s) t (lev_row s t i) limit =
             (if list_all (\<lambda>cell. \<not> cell < limit) (lev_row s t (Suc i)) then limit
              else edit_rows (drop (Suc i) s) t (lev_row s t (Suc i)) limit)"
    unfolding d by (simp add: next_row_correct[OF lt] Let_def)
  have no: "\<not> list_all (\<lambda>cell. \<not> cell < limit) (lev_row s t (Suc i))"
  proof
    assume "list_all (\<lambda>cell. \<not> cell < limit) (lev_row s t (Suc i))"
    then have "\<forall>k\<le>length t. limit \<le> int (lev_cell s t (Suc i) k)"
      by (simp only: lev_row_all)
    then have "\<forall>k\<le>length t. limit \<le> int (lev_cell s t (length s) k)"
      using lt lev_rows_mono[of "Suc i" "length s" t limit s] by simp
    then have "limit \<le> int (levenshtein s t)" unfolding levenshtein_def by simp
    then show False using Suc.prems(2) by simp
  qed
  show ?case
    using e no Suc.hyps(1)[OF n] lt Suc.prems(2) by simp
qed

lemma lev_row_0: "map int [0..<length t + 1] = lev_row s t 0"
  unfolding lev_row_def by simp

lemma CalEditDistance_below_limit:
  "CalEditDistance s t limit < limit \<Longrightarrow> CalEditDistance s t limit = int (levenshtein s t)"
  unfolding CalEditDistance_def lev_row_0[of t s]
  using edit_rows_below_limit[of 0 s t limit] by simp

lemma CalEditDistance_exact:
  "int (levenshtein s t) < limit \<Longrightarrow> CalEditDistance s t limit = int (levenshtein s t)"
  unfolding CalEditDistance_def lev_row_0[of t s]
  using edit_rows_exact[of 0 s t limit] by simp

subsection \<open>The invariant of the loops\<close>

lemma new_max_distance_le:
  "d \<le> b \<Longrightarrow> \<forall>slot\<in>set slots. iMatchWordDistance slot \<le> b \<Longrightarrow> new_max_distance d slots \<le> b"
  unfolding new_max_distance_def
  by (induction slots arbitrary: d) simp_all

lemma fuzzy_step_skip:
  "too_long_or_short env q sCheck iMaxDistance \<Longrightarrow>
   fuzzy_step env q (slots, iMaxDistance, Found) sCheck = Some (slots, iMaxDistance, Found)"
  by (simp add: fuzzy_step_def)

lemma fuzzy_step_inv:
  assumes inv: "fuzzy_inv P state"
    and step: "fuzzy_step env q state sCheck = Some state'"
    and new: "passes_tests env q sCheck (fst (snd state)) \<Longrightarrow> P (c_str sCheck)"
  shows "fuzzy_inv P state'"
proof -
  obtain slots iMaxDistance Found where st: "state = (slots, iMaxDistance, Found)"
    by (cases state) auto
  have m: "iMaxDistance \<le> iMaxFuzzyDistance"
    and sl: "\<forall>slot\<in>set slots. slot_justified P slot"
    using inv unfolding fuzzy_inv_def st by simp_all
  define iDistance where "iDistance = env_distance env (folded_candidate env q sCheck) q iMaxDistance"
  have eq: "fuzzy_step env q state sCheck =
     (if too_long_or_short env q sCheck iMaxDistance then Some state
      else if iDistance < iMaxDistance \<and> iDistance < int (length q) then
             (case scan_slots slots sCheck iMaxDistance 0 0 of
                (True, iMaxDistanceAt) \<Rightarrow> Some (slots, iMaxDistance, True)
              | (False, iMaxDistanceAt) \<Rightarrow>
                  if iMaxDistanceAt < length slots then
                    Some (slots[iMaxDistanceAt :=
                            \<lparr> pMatchWord = Some (c_str sCheck), iMatchWordDistance = iDistance \<rparr>],
                          new_max_distance iDistance (slots[iMaxDistanceAt :=
                            \<lparr> pMatchWord = Some (c_str sCheck), iMatchWordDistance = iDistance \<rparr>]),
                          True)
                  else None)
           else Some state)"
    unfolding fuzzy_step_def st iDistance_def Let_def by simp
  show ?thesis
  proof (cases "\<not> too_long_or_short env q sCheck iMaxDistance \<and> iDistance < iMaxDistance
                  \<and> iDistance < int (length q)")
    case False
    then have "state' = state"
      using step unfolding eq by (auto split: if_splits)
    then show ?thesis using inv by simp
  next
    case pass: True
    then have "passes_tests env q sCheck iMaxDistance"
      unfolding passes_tests_def iDistance_def by simp
    then have p: "P (c_str sCheck)" using new by (simp add: st)
    obtain already iMaxDistanceAt where sc: "scan_slots slots sCheck iMaxDistance 0 0 = (already, iMaxDistanceAt)"
      by (cases "scan_slots slots sCheck iMaxDistance 0 0") auto
    show ?thesis
    proof (cases already)
      case True
      then have "state' = (slots, iMaxDistance, True)"
        using step pass sc unfolding eq by simp
      then show ?thesis using m sl unfolding fuzzy_inv_def by simp
    next
      case False
      define new where "new = \<lparr> pMatchWord = Some (c_str sCheck), iMatchWordDistance = iDistance \<rparr>"
      have s': "state' = (slots[iMaxDistanceAt := new], new_max_distance iDistance (slots[iMaxDistanceAt := new]), True)"
        using step pass sc False unfolding eq new_def by (simp split: if_splits)
      have d3: "iDistance \<le> iMaxFuzzyDistance"
        using pass m by simp
      have nj: "slot_justified P new"
        unfolding slot_justified_def new_def using d3 p by simp
      have all: "\<forall>slot\<in>set (slots[iMaxDistanceAt := new]). slot_justified P slot"
        using sl nj set_update_subset_insert[of slots iMaxDistanceAt new] by auto
      have "new_max_distance iDistance (slots[iMaxDistanceAt := new]) \<le> iMaxFuzzyDistance"
        using d3 all by (intro new_max_distance_le) (simp_all add: slot_justified_def)
      then show ?thesis unfolding s' fuzzy_inv_def using all by simp
    qed
  qed
qed

lemma fuzzy_inv_mono:
  "fuzzy_inv P state \<Longrightarrow> (\<And>w. P w \<Longrightarrow> Q w) \<Longrightarrow> fuzzy_inv Q state"
  unfolding fuzzy_inv_def slot_justified_def
  by (auto split: option.splits)

lemma fuzzy_words_append:
  "fuzzy_words env q state (a @ b) =
     (case fuzzy_words env q state a of None \<Rightarrow> None | Some state' \<Rightarrow> fuzzy_words env q state' b)"
  by (induction a arbitrary: state) (simp_all split: option.splits)

lemma fuzzy_libs_concat:
  "fuzzy_libs env q state oLib = fuzzy_words env q state (concat oLib)"
  by (induction oLib arbitrary: state) (simp_all add: fuzzy_words_append split: option.splits)

lemma passed_in_snoc:
  "passed_in env q n words w \<Longrightarrow> passed_in env q n (words @ [x]) w"
  unfolding passed_in_def by (metis append_Cons append_assoc)

lemma fuzzy_init_inv: "fuzzy_inv P (fuzzy_init n)"
  unfolding fuzzy_inv_def fuzzy_init_def slot_justified_def by simp

lemma fuzzy_words_inv:
  "fuzzy_words env q (fuzzy_init n) words = Some state \<Longrightarrow>
   fuzzy_inv (passed_in env q n words) state"
proof (induction words arbitrary: state rule: rev_induct)
  case Nil
  then have "state = fuzzy_init n" by simp
  then show ?case by (simp only: fuzzy_init_inv)
next
  case (snoc x words)
  then obtain mid where a: "fuzzy_words env q (fuzzy_init n) words = Some mid"
    and b: "fuzzy_step env q mid x = Some state"
    by (auto simp: fuzzy_words_append split: option.splits)
  have i: "fuzzy_inv (passed_in env q n (words @ [x])) mid"
    using snoc.IH[OF a] passed_in_snoc by (rule fuzzy_inv_mono)
  obtain slots m F where mid: "mid = (slots, m, F)" by (cases mid) auto
  have m: "m \<le> iMaxFuzzyDistance"
    using i unfolding fuzzy_inv_def mid by simp
  have new: "passed_in env q n (words @ [x]) (c_str x)"
    if "passes_tests env q x (fst (snd mid))"
    unfolding passed_in_def using a m that unfolding mid
    by (intro exI[of _ words] exI[of _ x] exI[of _ "[]"] exI[of _ slots] exI[of _ m] exI[of _ F]) simp
  show ?case
    using i b new by (rule fuzzy_step_inv)
qed

lemma set_insert_slot: "set (insert_slot x ys) = insert x (set ys)"
  by (induction ys) auto

lemma set_sort_slots: "set (sort_slots slots) = set slots"
  unfolding sort_slots_def by (induction slots) (simp_all add: set_insert_slot)

lemma LookupWithFuzzy_concat:
  "LookupWithFuzzy env oLib sWord n = LookupWithFuzzy env [concat oLib] sWord n"
  unfolding LookupWithFuzzy_def fuzzy_libs_concat by simp

lemma LookupWithFuzzy_passed:
  assumes "LookupWithFuzzy env oLib sWord n = Some (Found, reslist)"
    and "Some w \<in> set reslist"
  shows "passed_in env (folded_query env sWord) n (concat oLib) w"
proof -
  define q where "q = folded_query env sWord"
  have ne: "c_str sWord \<noteq> []"
    using assms unfolding LookupWithFuzzy_def by (auto split: if_splits)
  obtain slots iMaxDistance where
    run: "fuzzy_words env q (fuzzy_init n) (concat oLib) = Some (slots, iMaxDistance, Found)"
    and res: "reslist = map pMatchWord (if Found then sort_slots slots else slots)"
    using assms(1) ne unfolding LookupWithFuzzy_def q_def fuzzy_libs_concat
    by (auto simp: Let_def split: option.splits)
  have "fuzzy_inv (passed_in env q n (concat oLib)) (slots, iMaxDistance, Found)"
    using run by (rule fuzzy_words_inv)
  then have all: "\<forall>slot\<in>set slots. slot_justified (passed_in env q n (concat oLib)) slot"
    unfolding fuzzy_inv_def by simp
  obtain slot where "slot \<in> set slots" "pMatchWord slot = Some w"
    using assms(2) unfolding res by (auto simp: set_sort_slots split: if_splits)
  then show ?thesis
    using all unfolding slot_justified_def q_def by fastforce
qed

lemma LookupWithFuzzy_skip:
  assumes c: "concat oLib = before @ sCheck # after"
    and r: "fuzzy_words env (folded_query env sWord) (fuzzy_init n) before = Some (slots, m, F)"
    and t: "too_long_or_short env (folded_query env sWord) sCheck m"
  shows "fuzzy_words env (folded_query env sWord) (fuzzy_init n) (before @ [sCheck]) = Some (slots, m, F)"
    and "LookupWithFuzzy env oLib sWord n = LookupWithFuzzy env [before @ after] sWord n"
proof -
  define q where "q = folded_query env sWord"
  have s: "fuzzy_step env q (slots, m, F) sCheck = Some (slots, m, F)"
    using t unfolding q_def by (rule fuzzy_step_skip)
  show "fuzzy_words env (folded_query env sWord) (fuzzy_init n) (before @ [sCheck]) = Some (slots, m, F)"
    using r s by (simp add: fuzzy_words_append q_def)
  have "fuzzy_words env q (fuzzy_init n) (before @ sCheck # after) =
        fuzzy_words env q (fuzzy_init n) (before @ after)"
    using r s by (simp add: fuzzy_words_append q_def)
  then show "LookupWithFuzzy env oLib sWord n = LookupWithFuzzy env [before @ after] sWord n"
    unfolding LookupWithFuzzy_concat[of env oLib] c
    unfolding LookupWithFuzzy_def fuzzy_libs_concat q_def by simp
qed

subsection \<open>The bound of the fuzzy lookup\<close>

lemmas fuzzy_eval = LookupWithFuzzy_def fuzzy_init_def folded_query_def ascii_env_def fuzzy_step_def
  too_long_or_short_def folded_candidate_def CalEditDistance_def next_row_def new_max_distance_def
  sort_slots_def fuzzy_less_def iMaxFuzzyDistance_def c_str_def NUL_def Let_def

lemma too_long_or_short_abs:
  "too_long_or_short env q sCheck m \<longleftrightarrow> m \<le> \<bar>int (length (env_ucs4 env sCheck)) - int (length q)\<bar>"
  unfolding too_long_or_short_def Let_def by linarith

lemma passes_tests_bound:
  assumes d: "env_distance env = CalEditDistance"
    and p: "passes_tests env q sCheck m"
  shows "\<bar>int (length (env_ucs4 env sCheck)) - int (length q)\<bar> < m \<and>
         int (levenshtein (folded_candidate env q sCheck) q) < m \<and>
         levenshtein (folded_candidate env q sCheck) q < length q"
proof -
  have lt: "CalEditDistance (folded_candidate env q sCheck) q m < m"
    and ltq: "CalEditDistance (folded_candidate env q sCheck) q m < int (length q)"
    and len: "\<not> too_long_or_short env q sCheck m"
    using p unfolding passes_tests_def d by simp_all
  have e: "CalEditDistance (folded_candidate env q sCheck) q m
           = int (levenshtein (folded_candidate env q sCheck) q)"
    using lt by (rule CalEditDistance_below_limit)
  have a: "int (levenshtein (folded_candidate env q sCheck) q) < m"
    using lt unfolding e .
  have b: "levenshtein (folded_candidate env q sCheck) q < length q"
    using ltq unfolding e by simp
  have c: "\<bar>int (length (env_ucs4 env sCheck)) - int (length q)\<bar> < m"
    using len unfolding too_long_or_short_abs by simp
  show ?thesis using a b c by simp
qed

text \<open>
  Claim C4, as the code has it. The code cuts a candidate that is longer than the query to
  the length of the query before it measures the distance (line 1386). With the capped
  distance of the specification for \<^verbatim>\<open>CalEditDistance\<close>: every headword that
  \<^verbatim>\<open>LookupWithFuzzy\<close> returns is a headword of the dictionaries, and at a moment
  when the lookup examined it, with \<^verbatim>\<open>iMaxDistance\<close> the maximum distance
  current at that moment, which is never above \<^verbatim>\<open>iMaxFuzzyDistance = 3\<close>: the length
  of the headword differs from the length \<open>L\<close> of the case-folded query by less than
  \<^verbatim>\<open>iMaxDistance\<close>, so by 2 at most; and the Levenshtein distance between the
  case-folded query and the case-folded headword, cut to the length of the query when
  it is longer, is less than \<^verbatim>\<open>iMaxDistance\<close>, so 2 at most, and less than \<open>L\<close>.
  And a candidate whose length differs from the length of the query by
  \<^verbatim>\<open>iMaxDistance\<close> or more, with \<^verbatim>\<open>iMaxDistance\<close> the maximum distance
  current when the lookup comes to it, is skipped: the slots, \<^verbatim>\<open>iMaxDistance\<close>
  and \<^verbatim>\<open>Found\<close> stay as they are, and the lookup returns what it returns without
  that candidate.
\<close>

theorem LookupWithFuzzy_truncated_bound:
  "(\<forall>env oLib sWord n Found reslist w.
      env_distance env = CalEditDistance \<and>
      LookupWithFuzzy env oLib sWord n = Some (Found, reslist) \<and> Some w \<in> set reslist \<longrightarrow>
      (\<exists>before sCheck after slots iMaxDistance F.
         concat oLib = before @ sCheck # after \<and> w = c_str sCheck \<and>
         fuzzy_words env (folded_query env sWord) (fuzzy_init n) before = Some (slots, iMaxDistance, F) \<and>
         iMaxDistance \<le> iMaxFuzzyDistance \<and>
         \<bar>int (length (env_ucs4 env sCheck)) - int (length (folded_query env sWord))\<bar> < iMaxDistance \<and>
         int (levenshtein (folded_candidate env (folded_query env sWord) sCheck) (folded_query env sWord))
           < iMaxDistance \<and>
         \<bar>int (length (env_ucs4 env sCheck)) - int (length (folded_query env sWord))\<bar> \<le> 2 \<and>
         levenshtein (folded_candidate env (folded_query env sWord) sCheck) (folded_query env sWord) \<le> 2 \<and>
         levenshtein (folded_candidate env (folded_query env sWord) sCheck) (folded_query env sWord)
           < length (folded_query env sWord))) \<and>
   (\<forall>env oLib sWord n before sCheck after slots iMaxDistance F.
      concat oLib = before @ sCheck # after \<and>
      fuzzy_words env (folded_query env sWord) (fuzzy_init n) before = Some (slots, iMaxDistance, F) \<and>
      iMaxDistance \<le> \<bar>int (length (env_ucs4 env sCheck)) - int (length (folded_query env sWord))\<bar> \<longrightarrow>
      fuzzy_words env (folded_query env sWord) (fuzzy_init n) (before @ [sCheck]) =
        Some (slots, iMaxDistance, F) \<and>
      LookupWithFuzzy env oLib sWord n = LookupWithFuzzy env [before @ after] sWord n)"
proof (intro conjI allI impI)
  fix env oLib sWord n Found reslist w
  assume a: "env_distance env = CalEditDistance \<and>
      LookupWithFuzzy env oLib sWord n = Some (Found, reslist) \<and> Some w \<in> set reslist"
  define q where "q = folded_query env sWord"
  from a have d: "env_distance env = CalEditDistance"
    and r: "LookupWithFuzzy env oLib sWord n = Some (Found, reslist)"
    and w: "Some w \<in> set reslist" by simp_all
  from LookupWithFuzzy_passed[OF r w] obtain before sCheck after slots m F where
    c: "concat oLib = before @ sCheck # after" and e: "w = c_str sCheck"
    and s: "fuzzy_words env q (fuzzy_init n) before = Some (slots, m, F)"
    and m: "m \<le> iMaxFuzzyDistance" and p: "passes_tests env q sCheck m"
    unfolding passed_in_def q_def by blast
  note b = passes_tests_bound[OF d p]
  have m3: "m \<le> 3" using m unfolding iMaxFuzzyDistance_def .
  have l2: "\<bar>int (length (env_ucs4 env sCheck)) - int (length q)\<bar> \<le> 2"
    using b m3 by linarith
  have d2: "levenshtein (folded_candidate env q sCheck) q \<le> 2"
    using b m3 by linarith
  show "\<exists>before sCheck after slots iMaxDistance F.
         concat oLib = before @ sCheck # after \<and> w = c_str sCheck \<and>
         fuzzy_words env (folded_query env sWord) (fuzzy_init n) before = Some (slots, iMaxDistance, F) \<and>
         iMaxDistance \<le> iMaxFuzzyDistance \<and>
         \<bar>int (length (env_ucs4 env sCheck)) - int (length (folded_query env sWord))\<bar> < iMaxDistance \<and>
         int (levenshtein (folded_candidate env (folded_query env sWord) sCheck) (folded_query env sWord))
           < iMaxDistance \<and>
         \<bar>int (length (env_ucs4 env sCheck)) - int (length (folded_query env sWord))\<bar> \<le> 2 \<and>
         levenshtein (folded_candidate env (folded_query env sWord) sCheck) (folded_query env sWord) \<le> 2 \<and>
         levenshtein (folded_candidate env (folded_query env sWord) sCheck) (folded_query env sWord)
           < length (folded_query env sWord)"
    unfolding q_def[symmetric]
    using c e s m b l2 d2
    by (intro exI[of _ before] exI[of _ sCheck] exI[of _ after] exI[of _ slots] exI[of _ m] exI[of _ F])
      simp
next
  fix env oLib sWord n before sCheck after slots iMaxDistance F
  assume a: "concat oLib = before @ sCheck # after \<and>
      fuzzy_words env (folded_query env sWord) (fuzzy_init n) before = Some (slots, iMaxDistance, F) \<and>
      iMaxDistance \<le> \<bar>int (length (env_ucs4 env sCheck)) - int (length (folded_query env sWord))\<bar>"
  then have c: "concat oLib = before @ sCheck # after"
    and r: "fuzzy_words env (folded_query env sWord) (fuzzy_init n) before = Some (slots, iMaxDistance, F)"
    and t: "too_long_or_short env (folded_query env sWord) sCheck iMaxDistance"
    by (simp_all add: too_long_or_short_abs)
  show "fuzzy_words env (folded_query env sWord) (fuzzy_init n) (before @ [sCheck]) =
        Some (slots, iMaxDistance, F)"
    by (rule LookupWithFuzzy_skip(1)[OF c r t])
next
  fix env oLib sWord n before sCheck after slots iMaxDistance F
  assume a: "concat oLib = before @ sCheck # after \<and>
      fuzzy_words env (folded_query env sWord) (fuzzy_init n) before = Some (slots, iMaxDistance, F) \<and>
      iMaxDistance \<le> \<bar>int (length (env_ucs4 env sCheck)) - int (length (folded_query env sWord))\<bar>"
  then have c: "concat oLib = before @ sCheck # after"
    and r: "fuzzy_words env (folded_query env sWord) (fuzzy_init n) before = Some (slots, iMaxDistance, F)"
    and t: "too_long_or_short env (folded_query env sWord) sCheck iMaxDistance"
    by (simp_all add: too_long_or_short_abs)
  show "LookupWithFuzzy env oLib sWord n = LookupWithFuzzy env [before @ after] sWord n"
    by (rule LookupWithFuzzy_skip(2)[OF c r t])
qed

text \<open>
  The theorem at the query \<^verbatim>\<open>abc\<close>, one dictionary with the headwords
  \<^verbatim>\<open>abd\<close> and \<^verbatim>\<open>abcXY\<close>, and one slot. \<^verbatim>\<open>abd\<close> is examined under the
  maximum distance 3 and returned, at the distance 1. \<^verbatim>\<open>abcXY\<close> is examined
  under the maximum distance 1, its length differs by 2, and it is skipped, although cut
  to three code points it is the query itself.
\<close>

theorem LookupWithFuzzy_truncated_bound_witness:
  "env_distance ascii_env = CalEditDistance \<and>
   LookupWithFuzzy ascii_env [[''abd'', ''abcXY'']] ''abc'' 1 = Some (True, [Some ''abd'']) \<and>
   (\<exists>before sCheck after slots iMaxDistance F.
         concat [[''abd'', ''abcXY'']] = before @ sCheck # after \<and> ''abd'' = c_str sCheck \<and>
         fuzzy_words ascii_env (folded_query ascii_env ''abc'') (fuzzy_init 1) before =
           Some (slots, iMaxDistance, F) \<and>
         iMaxDistance \<le> iMaxFuzzyDistance \<and>
         \<bar>int (length (env_ucs4 ascii_env sCheck)) - int (length (folded_query ascii_env ''abc''))\<bar>
           < iMaxDistance \<and>
         int (levenshtein (folded_candidate ascii_env (folded_query ascii_env ''abc'') sCheck)
                (folded_query ascii_env ''abc'')) < iMaxDistance \<and>
         \<bar>int (length (env_ucs4 ascii_env sCheck)) - int (length (folded_query ascii_env ''abc''))\<bar> \<le> 2 \<and>
         levenshtein (folded_candidate ascii_env (folded_query ascii_env ''abc'') sCheck)
           (folded_query ascii_env ''abc'') \<le> 2 \<and>
         levenshtein (folded_candidate ascii_env (folded_query ascii_env ''abc'') sCheck)
           (folded_query ascii_env ''abc'') < length (folded_query ascii_env ''abc'')) \<and>
   fuzzy_words ascii_env (folded_query ascii_env ''abc'') (fuzzy_init 1) [''abd''] =
     Some ([\<lparr> pMatchWord = Some ''abd'', iMatchWordDistance = 1 \<rparr>], 1, True) \<and>
   fuzzy_words ascii_env (folded_query ascii_env ''abc'') (fuzzy_init 1) [''abd'', ''abcXY''] =
     Some ([\<lparr> pMatchWord = Some ''abd'', iMatchWordDistance = 1 \<rparr>], 1, True) \<and>
   LookupWithFuzzy ascii_env [[''abd'', ''abcXY'']] ''abc'' 1 =
     LookupWithFuzzy ascii_env [[''abd'']] ''abc'' 1"
proof -
  have d: "env_distance ascii_env = CalEditDistance"
    by (simp add: ascii_env_def)
  have r: "LookupWithFuzzy ascii_env [[''abd'', ''abcXY'']] ''abc'' 1 = Some (True, [Some ''abd''])"
    by (simp add: fuzzy_eval)
  have w: "Some ''abd'' \<in> set [Some ''abd'']"
    by simp
  have c: "concat [[''abd'', ''abcXY'']] = [''abd''] @ ''abcXY'' # []"
    by simp
  have s: "fuzzy_words ascii_env (folded_query ascii_env ''abc'') (fuzzy_init 1) [''abd''] =
     Some ([\<lparr> pMatchWord = Some ''abd'', iMatchWordDistance = 1 \<rparr>], 1, True)"
    by (simp add: fuzzy_eval)
  have t: "1 \<le> \<bar>int (length (env_ucs4 ascii_env ''abcXY'')) - int (length (folded_query ascii_env ''abc''))\<bar>"
    by (simp add: fuzzy_eval)
  note first = LookupWithFuzzy_truncated_bound[THEN conjunct1, rule_format,
      of ascii_env "[[''abd'', ''abcXY'']]" "''abc''" 1 True "[Some ''abd'']" "''abd''"]
  note second = LookupWithFuzzy_truncated_bound[THEN conjunct2, rule_format,
      of "[[''abd'', ''abcXY'']]" "[''abd'']" "''abcXY''" "[]" ascii_env "''abc''" 1
        "[\<lparr> pMatchWord = Some ''abd'', iMatchWordDistance = 1 \<rparr>]" 1 True]
  have f: "\<exists>before sCheck after slots iMaxDistance F.
         concat [[''abd'', ''abcXY'']] = before @ sCheck # after \<and> ''abd'' = c_str sCheck \<and>
         fuzzy_words ascii_env (folded_query ascii_env ''abc'') (fuzzy_init 1) before =
           Some (slots, iMaxDistance, F) \<and>
         iMaxDistance \<le> iMaxFuzzyDistance \<and>
         \<bar>int (length (env_ucs4 ascii_env sCheck)) - int (length (folded_query ascii_env ''abc''))\<bar>
           < iMaxDistance \<and>
         int (levenshtein (folded_candidate ascii_env (folded_query ascii_env ''abc'') sCheck)
                (folded_query ascii_env ''abc'')) < iMaxDistance \<and>
         \<bar>int (length (env_ucs4 ascii_env sCheck)) - int (length (folded_query ascii_env ''abc''))\<bar> \<le> 2 \<and>
         levenshtein (folded_candidate ascii_env (folded_query ascii_env ''abc'') sCheck)
           (folded_query ascii_env ''abc'') \<le> 2 \<and>
         levenshtein (folded_candidate ascii_env (folded_query ascii_env ''abc'') sCheck)
           (folded_query ascii_env ''abc'') < length (folded_query ascii_env ''abc'')"
    using first d r w by blast
  have g: "fuzzy_words ascii_env (folded_query ascii_env ''abc'') (fuzzy_init 1) ([''abd''] @ [''abcXY'']) =
        Some ([\<lparr> pMatchWord = Some ''abd'', iMatchWordDistance = 1 \<rparr>], 1, True) \<and>
      LookupWithFuzzy ascii_env [[''abd'', ''abcXY'']] ''abc'' 1 =
        LookupWithFuzzy ascii_env [[''abd''] @ []] ''abc'' 1"
    using second c s t by blast
  from d r f s g show ?thesis by simp
qed

text \<open>
  Claim C4 as stated does not hold of the code: for the query \<^verbatim>\<open>abc\<close>, of
  length 3, the headword \<^verbatim>\<open>xbcde\<close> is returned, and its Levenshtein distance
  from the query is 3, which is more than 2 and not less than the length of the query.
\<close>

theorem LookupWithFuzzy_returns_distance_three:
  "LookupWithFuzzy ascii_env [[''xbcde'']] ''abc'' 1 = Some (True, [Some ''xbcde'']) \<and>
   length (folded_query ascii_env ''abc'') = 3 \<and>
   levenshtein (folded_query ascii_env ''xbcde'') (folded_query ascii_env ''abc'') = 3"
  by (simp add: fuzzy_eval levenshtein_def)

end
